theory Spec2Isabelle
  imports Main
begin

section \<open>The cancellation tree of package context\<close>

text \<open>
  The development embeds the context package found in \<^verbatim>\<open>src/src/syscall/env_unix.go\<close>
  (lines 227 to 794): the four concrete context types, the propagation of cancellation from
  a parent to its registered children, deadlines with their timers, and value lookup.

  Go pointers are addresses into an explicit store. The fields of a \<^verbatim>\<open>cancelCtx\<close> that
  are assigned after construction (\<^verbatim>\<open>done\<close>, \<^verbatim>\<open>children\<close>, \<^verbatim>\<open>err\<close>, and for a
  \<^verbatim>\<open>timerCtx\<close> also \<^verbatim>\<open>timer\<close> and \<^verbatim>\<open>deadline\<close>) live in the store, one map per
  field. The embedded parent \<^verbatim>\<open>Context\<close> and the pair \<^verbatim>\<open>key, val\<close> of a
  \<^verbatim>\<open>valueCtx\<close> are written once by the constructor and only read afterwards; they are
  carried by the reference itself, so that walking towards the root is structural recursion.
\<close>

subsection \<open>Data\<close>

type_synonym addr = nat
type_synonym chan = nat
type_synonym time = int
type_synonym timer_id = nat

text \<open>The two errors of the package; \<open>OtherError\<close> stands for what a foreign
  \<^verbatim>\<open>Context\<close> implementation may report. A nil error is \<open>None\<close>.\<close>

datatype error = Canceled | DeadlineExceeded | OtherError nat

text \<open>The ways a call does not return normally: a Go panic, a \<^verbatim>\<open>Lock\<close> of a mutex
  that the running call chain already holds, and running out of the recursion budget.\<close>

datatype fault = Panic string | Deadlock | OutOfFuel

text \<open>Keys are interface values compared with \<^verbatim>\<open>==\<close>. \<open>NilKey\<close> is the nil interface,
  \<open>CancelCtxKey\<close> is \<^verbatim>\<open>&cancelCtxKey\<close> and \<open>Key\<close> is a key of a comparable type on which
  \<^verbatim>\<open>==\<close> is an equivalence (an integer, a string, a pointer, an empty struct).
  \<open>NaNKey\<close> is a floating-point NaN: its type is comparable, but the value is not equal
  to itself. \<open>StructKey\<close> is a value of a struct type with a field of interface type that
  holds a slice: the type is comparable, but comparing two such values panics.
  \<open>SliceKey\<close> is a key of a type without equality (a slice, a map, a function).\<close>

datatype key = NilKey | CancelCtxKey | Key nat | NaNKey | StructKey nat | SliceKey nat

text \<open>Values: nil, user data, or the \<^verbatim>\<open>*cancelCtx\<close> that a cancelCtx returns for
  \<^verbatim>\<open>&cancelCtxKey\<close>.\<close>

datatype val = NilVal | Val nat | CancelCtxPtr addr

text \<open>A \<^verbatim>\<open>Context\<close> interface value. \<open>EmptyCtx 0\<close> is \<^verbatim>\<open>background\<close> and
  \<open>EmptyCtx 1\<close> is \<^verbatim>\<open>todo\<close>. \<open>CustomCtx dl dn e tab\<close> is an implementation from outside
  the package: its \<^verbatim>\<open>Deadline\<close> is \<open>dl\<close>, its \<^verbatim>\<open>Done\<close> channel is \<open>dn\<close>, its
  \<^verbatim>\<open>Err\<close> is \<open>e\<close> once that channel is closed and nil before (the contract stated at
  lines 280 to 284), and its \<^verbatim>\<open>Value\<close> answers from the table \<open>tab\<close>.\<close>

datatype ctx =
    EmptyCtx nat
  | ValueCtx ctx key val
  | CancelCtx addr ctx
  | TimerCtx addr ctx
  | CustomCtx "time option" "chan option" error "(key \<times> val) list"

text \<open>A \<^verbatim>\<open>canceler\<close> interface value: a \<^verbatim>\<open>*cancelCtx\<close> or a \<^verbatim>\<open>*timerCtx\<close>.\<close>

datatype canceler = CancelCtxC addr ctx | TimerCtxC addr ctx

fun canceler_addr :: "canceler \<Rightarrow> addr" where
  "canceler_addr (CancelCtxC a p) = a"
| "canceler_addr (TimerCtxC a p) = a"

fun canceler_parent :: "canceler \<Rightarrow> ctx" where
  "canceler_parent (CancelCtxC a p) = p"
| "canceler_parent (TimerCtxC a p) = p"

text \<open>A \<^verbatim>\<open>CancelFunc\<close> is a closure \<^verbatim>\<open>func() { c.cancel(flag, err) }\<close>; the record of
  what it captured stands for it.\<close>

datatype cancel_func = CancelFunc canceler bool error

text \<open>
  The store. \<open>done_ch\<close>, \<open>children\<close> and \<open>err\<close> are the fields of the cancelCtx at an
  address (\<open>children = None\<close> is the nil map), \<open>timer\<close> and \<open>deadline\<close> the additional
  fields of a timerCtx. \<open>closed\<close> lists the channels that have been closed, \<open>timers\<close> the
  callbacks registered with \<^verbatim>\<open>time.AfterFunc\<close> that were neither stopped nor run,
  \<open>watchers\<close> the goroutines started by \<^verbatim>\<open>propagateCancel\<close> and \<open>goroutines\<close> their
  counter. \<open>held\<close> lists the addresses whose mutex \<^verbatim>\<open>mu\<close> is locked, and \<open>calls\<close>
  logs every entry into \<^verbatim>\<open>cancelCtx.cancel\<close> together with the mutexes held at that
  moment.
\<close>

record state =
  done_ch :: "addr \<Rightarrow> chan option"
  children :: "addr \<Rightarrow> canceler list option"
  err :: "addr \<Rightarrow> error option"
  timer :: "addr \<Rightarrow> timer_id option"
  deadline :: "addr \<Rightarrow> time"
  next_addr :: addr
  closed :: "chan list"
  next_chan :: chan
  timers :: "(timer_id \<times> time \<times> canceler) list"
  next_timer :: timer_id
  goroutines :: nat
  watchers :: "(ctx \<times> canceler) list"
  held :: "addr list"
  calls :: "(addr \<times> addr list) list"

text \<open>\<^verbatim>\<open>closedchan\<close> is allocated first and closed by \<^verbatim>\<open>init\<close>.\<close>

definition closedchan :: chan where
  "closedchan = 0"

definition init_state :: state where
  "init_state = \<lparr> done_ch = (\<lambda>_. None), children = (\<lambda>_. None), err = (\<lambda>_. None),
     timer = (\<lambda>_. None), deadline = (\<lambda>_. 0), next_addr = 0, closed = [closedchan],
     next_chan = 1, timers = [], next_timer = 0, goroutines = 0, watchers = [],
     held = [], calls = [] \<rparr>"

definition background :: ctx where
  "background = EmptyCtx 0"

definition todo :: ctx where
  "todo = EmptyCtx 1"

definition Background :: ctx where
  "Background = background"

definition TODO :: ctx where
  "TODO = todo"

subsection \<open>Sequencing, mutexes, channels, timers\<close>

definition seq :: "fault + 'a \<Rightarrow> ('a \<Rightarrow> fault + 'b) \<Rightarrow> fault + 'b" where
  "seq m f = (case m of Inl x \<Rightarrow> Inl x | Inr y \<Rightarrow> f y)"

definition lock :: "state \<Rightarrow> addr \<Rightarrow> fault + state" where
  "lock s a = (if a \<in> set (held s) then Inl Deadlock else Inr (s\<lparr>held := a # held s\<rparr>))"

definition unlock :: "state \<Rightarrow> addr \<Rightarrow> state" where
  "unlock s a = s\<lparr>held := remove1 a (held s)\<rparr>"

definition close_chan :: "state \<Rightarrow> chan \<Rightarrow> fault + state" where
  "close_chan s d = (if d \<in> set (closed s) then Inl (Panic ''close of closed channel'')
     else Inr (s\<lparr>closed := d # closed s\<rparr>))"

text \<open>\<^verbatim>\<open>time.AfterFunc(dur, func() { c.cancel(true, DeadlineExceeded) })\<close> called at time
  \<open>now\<close>, and \<^verbatim>\<open>Timer.Stop\<close>.\<close>

definition AfterFunc :: "state \<Rightarrow> time \<Rightarrow> canceler \<Rightarrow> timer_id \<times> state" where
  "AfterFunc s at c = (let t = next_timer s in
     (t, s\<lparr>timers := timers s @ [(t, at, c)], next_timer := Suc t\<rparr>))"

definition Stop :: "state \<Rightarrow> timer_id \<Rightarrow> state" where
  "Stop s t = s\<lparr>timers := filter (\<lambda>r. fst r \<noteq> t) (timers s)\<rparr>"

subsection \<open>Value lookup\<close>

text \<open>The operator \<^verbatim>\<open>==\<close> of Go on two interface values, as lines 764 and 774 use it:
  values of different dynamic types are unequal; two values of one type that has no
  equality, or whose comparison reaches such a value in an interface field, make the
  comparison panic; a NaN is unequal to everything, itself included.\<close>

fun key_eq :: "key \<Rightarrow> key \<Rightarrow> fault + bool" where
  "key_eq (SliceKey n) (SliceKey m) = Inl (Panic ''runtime error: comparing uncomparable type'')"
| "key_eq (StructKey n) (StructKey m) =
     Inl (Panic ''runtime error: comparing uncomparable type'')"
| "key_eq NaNKey NaNKey = Inr False"
| "key_eq k k' = Inr (k = k')"

fun custom_Value :: "(key \<times> val) list \<Rightarrow> key \<Rightarrow> val" where
  "custom_Value tab k = (case map_of tab k of None \<Rightarrow> NilVal | Some v \<Rightarrow> v)"

text \<open>The loop of \<^verbatim>\<open>value\<close> (lines 770 to 794).\<close>

fun value_loop :: "ctx \<Rightarrow> key \<Rightarrow> fault + val" where
  "value_loop (ValueCtx p k v) key =
     (case key_eq key k of
        Inl f \<Rightarrow> Inl f
      | Inr b \<Rightarrow> if b then Inr v else value_loop p key)"
| "value_loop (CancelCtx a p) key =
     (case key_eq key CancelCtxKey of
        Inl f \<Rightarrow> Inl f
      | Inr b \<Rightarrow> if b then Inr (CancelCtxPtr a) else value_loop p key)"
| "value_loop (TimerCtx a p) key =
     (case key_eq key CancelCtxKey of
        Inl f \<Rightarrow> Inl f
      | Inr b \<Rightarrow> if b then Inr (CancelCtxPtr a) else value_loop p key)"
| "value_loop (EmptyCtx i) key = Inr NilVal"
| "value_loop (CustomCtx dl dn e tab) key = Inr (custom_Value tab key)"

text \<open>The method \<^verbatim>\<open>Value\<close> of each type; a timerCtx has the one of its embedded
  cancelCtx.\<close>

fun Value :: "ctx \<Rightarrow> key \<Rightarrow> fault + val" where
  "Value (EmptyCtx i) key = Inr NilVal"
| "Value (ValueCtx p k v) key =
     (case key_eq k key of
        Inl f \<Rightarrow> Inl f
      | Inr b \<Rightarrow> if b then Inr v else value_loop p key)"
| "Value (CancelCtx a p) key =
     (case key_eq key CancelCtxKey of
        Inl f \<Rightarrow> Inl f
      | Inr b \<Rightarrow> if b then Inr (CancelCtxPtr a) else value_loop p key)"
| "Value (TimerCtx a p) key =
     (case key_eq key CancelCtxKey of
        Inl f \<Rightarrow> Inl f
      | Inr b \<Rightarrow> if b then Inr (CancelCtxPtr a) else value_loop p key)"
| "Value (CustomCtx dl dn e tab) key = Inr (custom_Value tab key)"

text \<open>Modelled from the spec: \<^verbatim>\<open>reflectlite.TypeOf(key).Comparable()\<close> is not part of the
  sources at hand; a key is comparable when its type admits equality comparison.\<close>

fun Comparable :: "key \<Rightarrow> bool" where
  "Comparable (SliceKey n) = False"
| "Comparable k = True"

definition WithValue :: "ctx option \<Rightarrow> key \<Rightarrow> val \<Rightarrow> fault + ctx" where
  "WithValue parent key v =
     (case parent of
        None \<Rightarrow> Inl (Panic ''cannot create context from nil parent'')
      | Some p \<Rightarrow>
          if key = NilKey then Inl (Panic ''nil key'')
          else if \<not> Comparable key then Inl (Panic ''key is not comparable'')
          else Inr (ValueCtx p key v))"

subsection \<open>Done, Err, Deadline\<close>

text \<open>\<^verbatim>\<open>cancelCtx.Done\<close> creates the channel on first use, under the mutex.\<close>

definition cancelCtx_Done :: "state \<Rightarrow> addr \<Rightarrow> fault + (chan option \<times> state)" where
  "cancelCtx_Done s a =
     (case done_ch s a of
        Some d \<Rightarrow> Inr (Some d, s)
      | None \<Rightarrow>
          seq (lock s a) (\<lambda>s1.
            case done_ch s1 a of
              None \<Rightarrow>
                (let d = next_chan s1;
                     s2 = s1\<lparr>next_chan := Suc d, done_ch := (done_ch s1)(a := Some d)\<rparr>
                 in Inr (Some d, unlock s2 a))
            | Some d \<Rightarrow> Inr (Some d, unlock s1 a)))"

fun Done :: "state \<Rightarrow> ctx \<Rightarrow> fault + (chan option \<times> state)" where
  "Done s (EmptyCtx i) = Inr (None, s)"
| "Done s (ValueCtx p k v) = Done s p"
| "Done s (CancelCtx a p) = cancelCtx_Done s a"
| "Done s (TimerCtx a p) = cancelCtx_Done s a"
| "Done s (CustomCtx dl dn e tab) = Inr (dn, s)"

text \<open>\<^verbatim>\<open>cancelCtx.Err\<close> reads \<^verbatim>\<open>err\<close> between \<^verbatim>\<open>Lock\<close> and \<^verbatim>\<open>Unlock\<close>; the store
  is the same afterwards, so only the error is returned.\<close>

definition cancelCtx_Err :: "state \<Rightarrow> addr \<Rightarrow> fault + error option" where
  "cancelCtx_Err s a = seq (lock s a) (\<lambda>s1. Inr (err s1 a))"

fun Err :: "state \<Rightarrow> ctx \<Rightarrow> fault + error option" where
  "Err s (EmptyCtx i) = Inr None"
| "Err s (ValueCtx p k v) = Err s p"
| "Err s (CancelCtx a p) = cancelCtx_Err s a"
| "Err s (TimerCtx a p) = cancelCtx_Err s a"
| "Err s (CustomCtx dl dn e tab) =
     Inr (case dn of None \<Rightarrow> None
          | Some d \<Rightarrow> if d \<in> set (closed s) then Some e else None)"

text \<open>\<^verbatim>\<open>Deadline\<close>: only emptyCtx and timerCtx define it, the other types inherit it
  from the embedded parent. The zero time is 0.\<close>

fun Deadline :: "state \<Rightarrow> ctx \<Rightarrow> time \<times> bool" where
  "Deadline s (EmptyCtx i) = (0, False)"
| "Deadline s (ValueCtx p k v) = Deadline s p"
| "Deadline s (CancelCtx a p) = Deadline s p"
| "Deadline s (TimerCtx a p) = (deadline s a, True)"
| "Deadline s (CustomCtx dl dn e tab) = (case dl of None \<Rightarrow> (0, False) | Some t \<Rightarrow> (t, True))"

subsection \<open>Finding the parent cancelCtx, removing a child\<close>

definition parentCancelCtx :: "state \<Rightarrow> ctx \<Rightarrow> fault + (addr option \<times> state)" where
  "parentCancelCtx s parent =
     seq (Done s parent) (\<lambda>(dn, s1).
       if dn = Some closedchan \<or> dn = None then Inr (None, s1)
       else
         seq (Value parent CancelCtxKey) (\<lambda>v.
           case v of
             CancelCtxPtr p \<Rightarrow>
               if done_ch s1 p \<noteq> dn then Inr (None, s1) else Inr (Some p, s1)
           | _ \<Rightarrow> Inr (None, s1)))"

definition removeChild :: "state \<Rightarrow> ctx \<Rightarrow> canceler \<Rightarrow> fault + state" where
  "removeChild s parent child =
     seq (parentCancelCtx s parent) (\<lambda>(po, s1).
       case po of
         None \<Rightarrow> Inr s1
       | Some p \<Rightarrow>
           seq (lock s1 p) (\<lambda>s2.
             Inr (unlock
               (case children s2 p of
                  None \<Rightarrow> s2
                | Some cs \<Rightarrow> s2\<lparr>children := (children s2)(p := Some (removeAll child cs))\<rparr>)
               p)))"

subsection \<open>cancel\<close>

text \<open>The keys that \<^verbatim>\<open>for child := range c.children\<close> visits: none for the nil map.\<close>

definition children_list :: "state \<Rightarrow> addr \<Rightarrow> canceler list" where
  "children_list s a = (case children s a of None \<Rightarrow> [] | Some cs \<Rightarrow> cs)"

text \<open>
  \<open>cancel\<close> is the dynamic call \<^verbatim>\<open>child.cancel\<close>, \<open>cancelCtx_cancel\<close> the method at lines
  588 to 614, \<open>timerCtx_cancel\<close> the one at lines 677 to 689 and \<open>cancel_children\<close> the loop
  at lines 604 to 607, in the order of the list. The first argument bounds the depth of
  the recursion into children.
\<close>

function (sequential)
  cancel :: "nat \<Rightarrow> state \<Rightarrow> canceler \<Rightarrow> bool \<Rightarrow> error option \<Rightarrow> fault + state"
  and cancelCtx_cancel ::
    "nat \<Rightarrow> state \<Rightarrow> addr \<Rightarrow> ctx \<Rightarrow> bool \<Rightarrow> error option \<Rightarrow> fault + state"
  and timerCtx_cancel ::
    "nat \<Rightarrow> state \<Rightarrow> addr \<Rightarrow> ctx \<Rightarrow> bool \<Rightarrow> error option \<Rightarrow> fault + state"
  and cancel_children :: "nat \<Rightarrow> state \<Rightarrow> canceler list \<Rightarrow> error option \<Rightarrow> fault + state"
where
  "cancel n s (CancelCtxC a p) rfp e = cancelCtx_cancel n s a p rfp e"
| "cancel n s (TimerCtxC a p) rfp e = timerCtx_cancel n s a p rfp e"
| "cancelCtx_cancel n s a p rfp e =
     (if e = None then Inl (Panic ''context: internal error: missing cancel error'')
      else
        seq (lock (s\<lparr>calls := calls s @ [(a, held s)]\<rparr>) a) (\<lambda>s1.
          if err s1 a \<noteq> None then Inr (unlock s1 a)
          else
            seq (case done_ch s1 a of
                   None \<Rightarrow> Inr (s1\<lparr>err := (err s1)(a := e),
                                   done_ch := (done_ch s1)(a := Some closedchan)\<rparr>)
                 | Some d \<Rightarrow> close_chan (s1\<lparr>err := (err s1)(a := e)\<rparr>) d) (\<lambda>s2.
            seq (cancel_children n s2 (children_list s2 a) e) (\<lambda>s3.
                 let s4 = unlock (s3\<lparr>children := (children s3)(a := None)\<rparr>) a
                 in if rfp then removeChild s4 p (CancelCtxC a p) else Inr s4))))"
| "timerCtx_cancel n s a p rfp e =
     seq (cancelCtx_cancel n s a p False e) (\<lambda>s1.
     seq (if rfp then removeChild s1 p (TimerCtxC a p) else Inr s1) (\<lambda>s2.
     seq (lock s2 a) (\<lambda>s3.
       Inr (unlock
         (case timer s3 a of
            None \<Rightarrow> s3
          | Some t \<Rightarrow> (Stop s3 t)\<lparr>timer := (timer s3)(a := None)\<rparr>)
         a))))"
| "cancel_children n s [] e = Inr s"
| "cancel_children 0 s (ch # cs) e = Inl OutOfFuel"
| "cancel_children (Suc n) s (ch # cs) e =
     seq (cancel n s ch False e) (\<lambda>s1. cancel_children (Suc n) s1 cs e)"
  by pat_completeness auto

text \<open>The budget decreases on every call of a child; within one budget the calls go from
  the dynamic call to \<open>timerCtx_cancel\<close>, to \<open>cancelCtx_cancel\<close>, to the loop, and the
  loop shortens its list.\<close>

termination
  by (relation "measures [
     (\<lambda>x. case x of Inl (Inl (n, s, c, rfp, e)) \<Rightarrow> n | Inl (Inr (n, s, a, p, rfp, e)) \<Rightarrow> n
          | Inr (Inl (n, s, a, p, rfp, e)) \<Rightarrow> n | Inr (Inr (n, s, cs, e)) \<Rightarrow> n),
     (\<lambda>x. case x of Inl (Inl (n, s, c, rfp, e)) \<Rightarrow> 3 | Inl (Inr (n, s, a, p, rfp, e)) \<Rightarrow> 1
          | Inr (Inl (n, s, a, p, rfp, e)) \<Rightarrow> 2 | Inr (Inr (n, s, cs, e)) \<Rightarrow> 0),
     (\<lambda>x. case x of Inr (Inr (n, s, cs, e)) \<Rightarrow> length cs | _ \<Rightarrow> 0)]") auto

definition call_CancelFunc :: "nat \<Rightarrow> state \<Rightarrow> cancel_func \<Rightarrow> fault + state" where
  "call_CancelFunc n s f = (case f of CancelFunc c rfp e \<Rightarrow> cancel n s c rfp (Some e))"

text \<open>The callback of a timer, run by the scheduler when the timer expires; a timer that
  was stopped is not in \<open>timers\<close> and does nothing.\<close>

definition fire_timer :: "nat \<Rightarrow> state \<Rightarrow> timer_id \<Rightarrow> fault + state" where
  "fire_timer n s t =
     (case find (\<lambda>r. fst r = t) (timers s) of
        None \<Rightarrow> Inr s
      | Some r \<Rightarrow> cancel n (Stop s t) (snd (snd r)) True (Some DeadlineExceeded))"

subsection \<open>Deriving contexts\<close>

text \<open>The allocation of a zero cancelCtx (or of the timerCtx around it) at a fresh
  address.\<close>

definition newCancelCtx :: "state \<Rightarrow> addr \<times> state" where
  "newCancelCtx s = (let a = next_addr s in
     (a, s\<lparr>next_addr := Suc a, done_ch := (done_ch s)(a := None),
           children := (children s)(a := None), err := (err s)(a := None),
           timer := (timer s)(a := None), deadline := (deadline s)(a := 0)\<rparr>))"

definition propagateCancel :: "nat \<Rightarrow> state \<Rightarrow> ctx \<Rightarrow> canceler \<Rightarrow> fault + state" where
  "propagateCancel n s parent child =
     seq (Done s parent) (\<lambda>(dn, s1).
       case dn of
         None \<Rightarrow> Inr s1
       | Some d \<Rightarrow>
           if d \<in> set (closed s1)
           then seq (Err s1 parent) (\<lambda>e. cancel n s1 child False e)
           else
             seq (parentCancelCtx s1 parent) (\<lambda>(po, s2).
               case po of
                 Some p \<Rightarrow>
                   seq (lock s2 p) (\<lambda>s3.
                     seq (if err s3 p \<noteq> None then cancel n s3 child False (err s3 p)
                          else Inr (s3\<lparr>children := (children s3)(p := Some
                                 (case children s3 p of
                                    None \<Rightarrow> [child]
                                  | Some cs \<Rightarrow> if child \<in> set cs then cs else cs @ [child]))\<rparr>))
                       (\<lambda>s4. Inr (unlock s4 p)))
               | None \<Rightarrow>
                   Inr (s2\<lparr>goroutines := goroutines s2 + 1,
                           watchers := watchers s2 @ [(parent, child)]\<rparr>)))"

definition WithCancel ::
  "nat \<Rightarrow> state \<Rightarrow> ctx option \<Rightarrow> fault + ((ctx \<times> cancel_func) \<times> state)" where
  "WithCancel n s parent =
     (case parent of
        None \<Rightarrow> Inl (Panic ''cannot create context from nil parent'')
      | Some p \<Rightarrow>
          (case newCancelCtx s of (a, s1) \<Rightarrow>
             seq (propagateCancel n s1 p (CancelCtxC a p)) (\<lambda>s2.
               Inr ((CancelCtx a p, CancelFunc (CancelCtxC a p) True Canceled), s2))))"

text \<open>\<open>now\<close> is what the clock shows when \<^verbatim>\<open>time.Until(d)\<close> reads it.\<close>

definition WithDeadline ::
  "nat \<Rightarrow> time \<Rightarrow> state \<Rightarrow> ctx option \<Rightarrow> time \<Rightarrow> fault + ((ctx \<times> cancel_func) \<times> state)" where
  "WithDeadline n now s parent d =
     (case parent of
        None \<Rightarrow> Inl (Panic ''cannot create context from nil parent'')
      | Some p \<Rightarrow>
          (case Deadline s p of (cur, ok) \<Rightarrow>
             if ok \<and> cur < d then WithCancel n s (Some p)
             else
               (case newCancelCtx s of (a, s0) \<Rightarrow>
                  let s1 = s0\<lparr>deadline := (deadline s0)(a := d)\<rparr>; c = TimerCtxC a p in
                  seq (propagateCancel n s1 p c) (\<lambda>s2.
                    let dur = d - now in
                    if dur \<le> 0
                    then seq (cancel n s2 c True (Some DeadlineExceeded)) (\<lambda>s3.
                           Inr ((TimerCtx a p, CancelFunc c False Canceled), s3))
                    else
                      seq (lock s2 a) (\<lambda>s3.
                        let s4 = (if err s3 a = None
                                  then (case AfterFunc s3 (now + dur) c of (t, s') \<Rightarrow>
                                          s'\<lparr>timer := (timer s')(a := Some t)\<rparr>)
                                  else s3)
                        in Inr ((TimerCtx a p, CancelFunc c True Canceled), unlock s4 a))))))"

text \<open>\<open>now0\<close> is the reading of \<^verbatim>\<open>time.Now()\<close>, \<open>now\<close> the later one of
  \<^verbatim>\<open>time.Until\<close>.\<close>

definition WithTimeout ::
  "nat \<Rightarrow> time \<Rightarrow> time \<Rightarrow> state \<Rightarrow> ctx option \<Rightarrow> time
     \<Rightarrow> fault + ((ctx \<times> cancel_func) \<times> state)" where
  "WithTimeout n now0 now s parent timeout = WithDeadline n now s parent (now0 + timeout)"

subsection \<open>Specification-side definitions\<close>

text \<open>The binding that a lookup is specified to find: the one of the nearest node, walking
  towards the root, that answers for the key. \<open>ptr_lookup\<close> is the value found for
  \<^verbatim>\<open>&cancelCtxKey\<close>.\<close>

fun ptr_lookup :: "ctx \<Rightarrow> val" where
  "ptr_lookup (EmptyCtx i) = NilVal"
| "ptr_lookup (ValueCtx p k v) = (if k = CancelCtxKey then v else ptr_lookup p)"
| "ptr_lookup (CancelCtx a p) = CancelCtxPtr a"
| "ptr_lookup (TimerCtx a p) = CancelCtxPtr a"
| "ptr_lookup (CustomCtx dl dn e tab) = custom_Value tab CancelCtxKey"

fun nearest_binding :: "ctx \<Rightarrow> key \<Rightarrow> val option" where
  "nearest_binding (EmptyCtx i) key = None"
| "nearest_binding (ValueCtx p k v) key = (if k = key then Some v else nearest_binding p key)"
| "nearest_binding (CancelCtx a p) key =
     (if key = CancelCtxKey then Some (CancelCtxPtr a) else nearest_binding p key)"
| "nearest_binding (TimerCtx a p) key =
     (if key = CancelCtxKey then Some (CancelCtxPtr a) else nearest_binding p key)"
| "nearest_binding (CustomCtx dl dn e tab) key = map_of tab key"

text \<open>
  What a call of \<open>cancel\<close> with the flag \<open>removeFromParent\<close> unset and the error \<open>e\<close>
  may do to the store, as a relation between the stores before and after. Errors are only
  set, from nil to \<open>e\<close>; a node whose error did not change keeps its children and its
  channel; a node whose error was set has lost its children, has a closed channel and has
  had each of its children cancelled; and a channel is closed only for such a node.
\<close>

definition err_rel :: "error \<Rightarrow> state \<Rightarrow> state \<Rightarrow> bool" where
  "err_rel e s s' \<longleftrightarrow>
     (\<forall>x. err s' x = err s x \<or> (err s x = None \<and> err s' x = Some e)) \<and>
     (\<forall>x. err s' x = err s x \<longrightarrow>
          children s' x = children s x \<and> done_ch s' x = done_ch s x) \<and>
     (\<forall>x. err s x = None \<longrightarrow> err s' x \<noteq> None \<longrightarrow>
          children s' x = None \<and>
          (\<exists>d. done_ch s' x = Some d \<and> (d = closedchan \<or> d \<in> set (closed s'))) \<and>
          (done_ch s x \<noteq> None \<longrightarrow> done_ch s' x = done_ch s x) \<and>
          (\<forall>c \<in> set (children_list s x). err s' (canceler_addr c) \<noteq> None)) \<and>
     set (closed s) \<subseteq> set (closed s') \<and>
     (\<forall>d \<in> set (closed s'). d \<in> set (closed s) \<or>
          (\<exists>x. err s x = None \<and> err s' x \<noteq> None \<and> done_ch s x = Some d))"

definition misc_rel :: "state \<Rightarrow> state \<Rightarrow> bool" where
  "misc_rel s s' \<longleftrightarrow>
     deadline s' = deadline s \<and> next_addr s' = next_addr s \<and> next_chan s' = next_chan s \<and>
     held s' = held s \<and> watchers s' = watchers s \<and> goroutines s' = goroutines s \<and>
     next_timer s' = next_timer s \<and>
     set (timers s') \<subseteq> set (timers s) \<and>
     (\<forall>x. timer s' x = timer s x \<or>
          (timer s' x = None \<and> (\<forall>t. timer s x = Some t \<longrightarrow> t \<notin> fst ` set (timers s')))) \<and>
     (\<exists>l. calls s' = calls s @ l)"

definition fanout_rel :: "error \<Rightarrow> state \<Rightarrow> state \<Rightarrow> bool" where
  "fanout_rel e s s' \<longleftrightarrow> err_rel e s s' \<and> misc_rel s s'"

text \<open>What the fan-out does to the done fields: a field is left alone, or a nil one is
  set to the shared closed channel.\<close>

definition done_rel :: "state \<Rightarrow> state \<Rightarrow> bool" where
  "done_rel s s' \<longleftrightarrow>
     (\<forall>x. done_ch s' x = done_ch s x \<or> (done_ch s x = None \<and> done_ch s' x = Some closedchan))"

text \<open>The store when \<open>cancelCtx_cancel\<close> enters its loop over the children of \<open>a\<close>,
  the store when it returns given the store after the loop, and the effect of the last
  block of \<open>timerCtx_cancel\<close>.\<close>

definition mark :: "state \<Rightarrow> addr \<Rightarrow> error \<Rightarrow> state" where
  "mark s a e = s\<lparr>calls := calls s @ [(a, held s)], held := a # held s,
     err := (err s)(a := Some e),
     done_ch := (case done_ch s a of None \<Rightarrow> (done_ch s)(a := Some closedchan)
                 | Some d \<Rightarrow> done_ch s),
     closed := (case done_ch s a of None \<Rightarrow> closed s | Some d \<Rightarrow> d # closed s)\<rparr>"

definition finish :: "state \<Rightarrow> addr \<Rightarrow> state" where
  "finish s a = unlock (s\<lparr>children := (children s)(a := None)\<rparr>) a"

definition clear_timer :: "state \<Rightarrow> addr \<Rightarrow> state" where
  "clear_timer s a = (case timer s a of None \<Rightarrow> s
     | Some t \<Rightarrow> s\<lparr>timers := filter (\<lambda>r. fst r \<noteq> t) (timers s), timer := (timer s)(a := None)\<rparr>)"

text \<open>What \<open>Done\<close>, \<open>parentCancelCtx\<close> and \<open>removeChild\<close> may do to the store: create the
  channel of one node that had none, and delete the child from one set of children.\<close>

definition remove_rel :: "canceler \<Rightarrow> state \<Rightarrow> state \<Rightarrow> bool" where
  "remove_rel c s s' \<longleftrightarrow>
     err s' = err s \<and> closed s' = closed s \<and> held s' = held s \<and> deadline s' = deadline s \<and>
     next_addr s' = next_addr s \<and> timers s' = timers s \<and> timer s' = timer s \<and>
     next_timer s' = next_timer s \<and> watchers s' = watchers s \<and>
     goroutines s' = goroutines s \<and> calls s' = calls s \<and>
     (\<forall>x. done_ch s' x = done_ch s x \<or> (done_ch s x = None \<and> done_ch s' x = Some (next_chan s))) \<and>
     (next_chan s' = next_chan s \<or> next_chan s' = Suc (next_chan s)) \<and>
     (\<forall>x. children s' x = children s x \<or>
          children s' x = map_option (removeAll c) (children s x))"

text \<open>
  The shape of the store that the total correctness of \<open>cancel\<close> rests on: \<^verbatim>\<open>closedchan\<close>
  is closed; the children of an allocated node are allocated and have larger addresses
  (a child is always allocated after the node it registers with); and the channel of a
  node that is not cancelled is open and is not the channel of another such node.
\<close>

definition tree_inv :: "state \<Rightarrow> bool" where
  "tree_inv s \<longleftrightarrow>
     closedchan \<in> set (closed s) \<and>
     (\<forall>x < next_addr s.
        (\<forall>c \<in> set (children_list s x). x < canceler_addr c \<and> canceler_addr c < next_addr s) \<and>
        (err s x = None \<longrightarrow>
           (case done_ch s x of
              None \<Rightarrow> True
            | Some d \<Rightarrow> d \<notin> set (closed s) \<and>
                (\<forall>y < next_addr s. err s y = None \<and> done_ch s y = Some d \<longrightarrow> y = x))))"

text \<open>The \<^verbatim>\<open>Context\<close> that a canceler is, and a series of further calls of \<open>cancel\<close> on
  the same canceler, each with its own flag and error.\<close>

fun canceler_ctx :: "canceler \<Rightarrow> ctx" where
  "canceler_ctx (CancelCtxC a p) = CancelCtx a p"
| "canceler_ctx (TimerCtxC a p) = TimerCtx a p"

fun cancel_again :: "nat \<Rightarrow> state \<Rightarrow> canceler \<Rightarrow> (bool \<times> error) list \<Rightarrow> fault + state" where
  "cancel_again n s c [] = Inr s"
| "cancel_again n s c (x # xs) =
     seq (cancel n s c (fst x) (Some (snd x))) (\<lambda>s'. cancel_again n s' c xs)"

definition chain_A :: canceler where
  "chain_A = CancelCtxC 0 Background"

definition chain_B :: canceler where
  "chain_B = CancelCtxC 1 (canceler_ctx chain_A)"

definition chain_C :: canceler where
  "chain_C = CancelCtxC 2 (canceler_ctx chain_B)"

definition chain_state :: state where
  "chain_state = init_state\<lparr>
     done_ch := (\<lambda>_. None)(0 := Some 1, 1 := Some 2),
     children := (\<lambda>_. None)(0 := Some [chain_B], 1 := Some [chain_C]),
     next_addr := 3, next_chan := 3\<rparr>"

definition chain_state1 :: state where
  "chain_state1 = init_state\<lparr>next_addr := 1\<rparr>"

definition chain_state2 :: state where
  "chain_state2 = init_state\<lparr>
     done_ch := (\<lambda>_. None)(0 := Some 1),
     children := (\<lambda>_. None)(0 := Some [chain_B]),
     next_addr := 2, next_chan := 2\<rparr>"

text \<open>What claim C9 says of the entries into \<open>cancel\<close> logged between two stores: each
  found no mutex held.\<close>

definition recursion_lock_free :: "state \<Rightarrow> state \<Rightarrow> bool" where
  "recursion_lock_free s s' \<longleftrightarrow>
     (\<forall>x \<in> set (drop (length (calls s)) (calls s')). snd x = [])"

text \<open>The result of \<open>parentCancelCtx\<close> for a parent whose \<^verbatim>\<open>Done\<close> channel is \<open>d\<close>, and
  the two stores that \<open>propagateCancel\<close> returns when it does not cancel the child: with
  the child registered at \<open>p\<close>, and with a goroutine started.\<close>

definition native_parent :: "state \<Rightarrow> ctx \<Rightarrow> chan \<Rightarrow> addr option" where
  "native_parent s parent d =
     (if d = closedchan then None
      else (case Value parent CancelCtxKey of
              Inr (CancelCtxPtr p) \<Rightarrow> if done_ch s p \<noteq> Some d then None else Some p
            | _ \<Rightarrow> None))"

definition register :: "state \<Rightarrow> addr \<Rightarrow> canceler \<Rightarrow> state" where
  "register s p child = s\<lparr>children := (children s)(p := Some
     (case children s p of
        None \<Rightarrow> [child]
      | Some cs \<Rightarrow> if child \<in> set cs then cs else cs @ [child]))\<rparr>"

definition spawn_watcher :: "state \<Rightarrow> ctx \<Rightarrow> canceler \<Rightarrow> state" where
  "spawn_watcher s parent child =
     s\<lparr>goroutines := goroutines s + 1, watchers := watchers s @ [(parent, child)]\<rparr>"

text \<open>A context whose cancelCtx and timerCtx nodes, and the cancelCtx that a value or a
  foreign implementation points to, are all allocated in the store.\<close>

fun allocated :: "state \<Rightarrow> ctx \<Rightarrow> bool" where
  "allocated s (EmptyCtx i) = True"
| "allocated s (ValueCtx p k v) =
     (allocated s p \<and> (case v of CancelCtxPtr q \<Rightarrow> q < next_addr s | _ \<Rightarrow> True))"
| "allocated s (CancelCtx a p) = (a < next_addr s \<and> allocated s p)"
| "allocated s (TimerCtx a p) = (a < next_addr s \<and> allocated s p)"
| "allocated s (CustomCtx dl dn e tab) =
     (case map_of tab CancelCtxKey of Some (CancelCtxPtr p) \<Rightarrow> p < next_addr s | _ \<Rightarrow> True)"

text \<open>The store after the allocation of a node with deadline \<open>d\<close>.\<close>

definition alloc_with :: "state \<Rightarrow> time \<Rightarrow> state" where
  "alloc_with s d = s\<lparr>next_addr := Suc (next_addr s),
     done_ch := (done_ch s)(next_addr s := None),
     children := (children s)(next_addr s := None), err := (err s)(next_addr s := None),
     timer := (timer s)(next_addr s := None), deadline := (deadline s)(next_addr s := d)\<rparr>"


text \<open>The store after the last block of \<open>WithDeadline\<close>, which starts the timer of the
  node \<open>a\<close> unless the node is cancelled already.\<close>

definition arm_timer :: "state \<Rightarrow> addr \<Rightarrow> time \<Rightarrow> canceler \<Rightarrow> state" where
  "arm_timer s a d c =
     (if err s a = None
      then s\<lparr>timers := timers s @ [(next_timer s, d, c)], next_timer := Suc (next_timer s),
             timer := (timer s)(a := Some (next_timer s))\<rparr>
      else s)"

text \<open>The example store after \<open>cancel\<close> on \<open>A\<close>.\<close>

definition chain_cancelled :: state where
  "chain_cancelled = init_state\<lparr>
     done_ch := (\<lambda>_. None)(0 := Some 1, 1 := Some 2, 2 := Some closedchan),
     err := (\<lambda>_. None)(0 := Some Canceled, 1 := Some Canceled, 2 := Some Canceled),
     next_addr := 3, next_chan := 3, closed := [2, 1, closedchan],
     calls := [(0, []), (1, [0]), (2, [1, 0])]\<rparr>"

text \<open>A second example store: \<open>A = WithCancel(Background)\<close> and then
  \<open>T = WithDeadline(A, 50)\<close> at time 0.\<close>

definition timer_T :: canceler where
  "timer_T = TimerCtxC 1 (canceler_ctx chain_A)"

definition timer_state :: state where
  "timer_state = init_state\<lparr>
     done_ch := (\<lambda>_. None)(0 := Some 1),
     children := (\<lambda>_. None)(0 := Some [timer_T]),
     timer := (\<lambda>_. None)(1 := Some 0),
     deadline := (\<lambda>_. 0)(1 := 50),
     next_addr := 2, next_chan := 2,
     timers := [(0, 50, timer_T)], next_timer := 1\<rparr>"

text \<open>What it means for the node \<open>a\<close>, made by a call that took the store from \<open>s\<close> to
  \<open>s'\<close>, to be cancelled with \<open>e\<close> and not registered: its err is \<open>e\<close> and its done the
  shared closed channel; no children set, and no list of watcher goroutines, has a new
  element; no timer was created.\<close>

definition cancelled_unregistered :: "state \<Rightarrow> state \<Rightarrow> addr \<Rightarrow> error \<Rightarrow> bool" where
  "cancelled_unregistered s s' a e \<longleftrightarrow>
     err s' a = Some e \<and> done_ch s' a = Some closedchan \<and> children s' a = None \<and>
     (\<forall>x. set (children_list s' x) \<subseteq> set (children_list s x)) \<and>
     watchers s' = watchers s \<and> goroutines s' = goroutines s \<and>
     set (timers s') \<subseteq> set (timers s) \<and> next_timer s' = next_timer s \<and> timer s' a = None \<and>
     held s' = []"

text \<open>The example continued: \<open>X = WithDeadline(T, 80)\<close> at time 0, which degrades to
  \<open>WithCancel(T)\<close>.\<close>

definition timer_X :: canceler where
  "timer_X = CancelCtxC 2 (canceler_ctx timer_T)"

definition timer_state1 :: state where
  "timer_state1 = timer_state\<lparr>next_chan := 3, done_ch := (done_ch timer_state)(1 := Some 2)\<rparr>"

definition timer_state2 :: state where
  "timer_state2 = init_state\<lparr>
     done_ch := (\<lambda>_. None)(0 := Some 1, 1 := Some 2),
     children := (\<lambda>_. None)(0 := Some [timer_T], 1 := Some [timer_X]),
     timer := (\<lambda>_. None)(1 := Some 0),
     deadline := (\<lambda>_. 0)(1 := 50, 2 := 0),
     next_addr := 3, next_chan := 3,
     timers := [(0, 50, timer_T)], next_timer := 1\<rparr>"

text \<open>A parent that is not cancelled when \<open>propagateCancel\<close> looks at it: its Done (read
  in the store \<open>s1\<close>) is nil, or an open channel which, if it is the done of a cancelCtx
  found through \<open>cancelCtxKey\<close>, belongs to one whose err is nil.\<close>

definition live_parent :: "state \<Rightarrow> ctx \<Rightarrow> chan option \<Rightarrow> bool" where
  "live_parent s1 parent dn \<longleftrightarrow>
     (case dn of
        None \<Rightarrow> True
      | Some ch \<Rightarrow> ch \<notin> set (closed s1) \<and>
          (case native_parent s1 parent ch of None \<Rightarrow> True | Some p \<Rightarrow> err s1 p = None))"


section \<open>Basic facts\<close>

lemma seq_Inr [simp]: "seq (Inr x) f = f x"
  by (simp add: seq_def)

lemma seq_Inl [simp]: "seq (Inl x) f = Inl x"
  by (simp add: seq_def)

lemma seq_eq_Inr: "(seq m f = Inr y) = (\<exists>x. m = Inr x \<and> f x = Inr y)"
  by (cases m) simp_all

lemma lock_eq_Inr: "(lock s a = Inr s') = (a \<notin> set (held s) \<and> s' = s\<lparr>held := a # held s\<rparr>)"
  by (auto simp: lock_def)

section \<open>Value lookup\<close>

lemma key_eq_CancelCtxKey [simp]:
  "key_eq k CancelCtxKey = Inr (k = CancelCtxKey)"
  "key_eq CancelCtxKey k = Inr (CancelCtxKey = k)"
  by (cases k; simp)+

lemma key_eq_sym: "key_eq k k' = key_eq k' k"
  by (cases k; cases k') auto

lemma key_eq_refl: "key_eq k k = Inr True \<Longrightarrow> key_eq k k' = Inr (k = k')"
  by (cases k; cases k') auto

lemma value_loop_Value: "value_loop c key = Value c key"
  by (cases c) (auto simp: key_eq_sym[of key])

lemma Value_ptr_lookup [simp]: "Value c CancelCtxKey = Inr (ptr_lookup c)"
  by (induction c) (auto simp: value_loop_Value)

lemma native_parent_eq:
  "native_parent s parent d =
     (if d = closedchan then None
      else (case ptr_lookup parent of
              CancelCtxPtr p \<Rightarrow> if done_ch s p \<noteq> Some d then None else Some p
            | _ \<Rightarrow> None))"
  by (simp add: native_parent_def)

lemma Value_nearest_binding:
  "key_eq key key = Inr True \<Longrightarrow>
   Value c key = Inr (case nearest_binding c key of None \<Rightarrow> NilVal | Some v \<Rightarrow> v)"
proof (induction c)
  case (ValueCtx c k v)
  have "key_eq k key = Inr (k = key)"
    using key_eq_refl[OF ValueCtx.prems, of k] by (auto simp: key_eq_sym[of k key])
  then show ?case using ValueCtx by (simp add: value_loop_Value)
next
  case (CancelCtx a c)
  then show ?case by (simp add: value_loop_Value)
next
  case (TimerCtx a c)
  then show ?case by (simp add: value_loop_Value)
qed simp_all


text \<open>
  Claim C7, as the code has it. Let the key \<open>k\<close> be equal to itself under \<^verbatim>\<open>==\<close> (it is
  not a NaN, and comparing it does not panic). Deriving a value context for \<open>k\<close> from a
  value context for the same key shadows the outer binding: the lookup of \<open>k\<close> returns the
  inner value. A lookup of a key that \<^verbatim>\<open>==\<close> finds unequal to the node's own is the lookup
  in the parent, one that it finds equal returns the node's value, and a comparison that
  panics makes the lookup panic. Every lookup of a key equal to itself returns the nearest
  binding found on the way to the root, or nil when there is none.
\<close>

theorem value_shadowing:
  "(key_eq k k = Inr True \<longrightarrow>
      WithValue (Some s) k v1 = Inr c1 \<longrightarrow> WithValue (Some c1) k v2 = Inr c2 \<longrightarrow>
      Value c2 k = Inr v2 \<and> c2 = ValueCtx (ValueCtx s k v1) k v2)
   \<and> (key_eq k k = Inr True \<longrightarrow> Value (ValueCtx p k v) k = Inr v)
   \<and> (key_eq k k = Inr True \<longrightarrow> k' \<noteq> k \<longrightarrow> Value (ValueCtx p k v) k' = Value p k')
   \<and> (key_eq k k' = Inr False \<longrightarrow> Value (ValueCtx p k v) k' = Value p k')
   \<and> (key_eq k k' = Inr True \<longrightarrow> Value (ValueCtx p k v) k' = Inr v)
   \<and> (key_eq k k' = Inl f \<longrightarrow> Value (ValueCtx p k v) k' = Inl f)
   \<and> (key_eq k' k' = Inr True \<longrightarrow>
        Value p k' = Inr (case nearest_binding p k' of None \<Rightarrow> NilVal | Some w \<Rightarrow> w))"
proof -
  have a: "key_eq k k = Inr True \<longrightarrow> Value (ValueCtx p k v) k = Inr v" for p v
    by simp
  have b: "key_eq k k' = Inr False \<longrightarrow> Value (ValueCtx p k v) k' = Value p k'"
    by (simp add: value_loop_Value)
  have c: "key_eq k k = Inr True \<longrightarrow> k' \<noteq> k \<longrightarrow> Value (ValueCtx p k v) k' = Value p k'"
    using key_eq_refl[of k k'] by (auto simp: value_loop_Value)
  have d: "key_eq k k = Inr True \<longrightarrow>
      WithValue (Some s) k v1 = Inr c1 \<longrightarrow> WithValue (Some c1) k v2 = Inr c2 \<longrightarrow>
      Value c2 k = Inr v2 \<and> c2 = ValueCtx (ValueCtx s k v1) k v2"
    by (auto simp: WithValue_def split: if_splits)
  have e: "key_eq k k' = Inr True \<longrightarrow> Value (ValueCtx p k v) k' = Inr v"
    "key_eq k k' = Inl f \<longrightarrow> Value (ValueCtx p k v) k' = Inl f"
    by simp_all
  have g: "key_eq k' k' = Inr True \<longrightarrow>
        Value p k' = Inr (case nearest_binding p k' of None \<Rightarrow> NilVal | Some w \<Rightarrow> w)"
    using Value_nearest_binding by blast
  from d a c b e g show ?thesis by (intro conjI) assumption+
qed

theorem value_shadowing_witness:
  "key_eq (Key 1) (Key 1) = Inr True
   \<and> WithValue (Some Background) (Key 1) (Val 10) = Inr (ValueCtx Background (Key 1) (Val 10))
   \<and> WithValue (Some (ValueCtx Background (Key 1) (Val 10))) (Key 1) (Val 20)
       = Inr (ValueCtx (ValueCtx Background (Key 1) (Val 10)) (Key 1) (Val 20))
   \<and> Value (ValueCtx (ValueCtx Background (Key 1) (Val 10)) (Key 1) (Val 20)) (Key 1)
       = Inr (Val 20)
   \<and> key_eq (Key 1) (Key 2) = Inr False \<and> key_eq (Key 2) (Key 2) = Inr True
   \<and> Value (ValueCtx (ValueCtx Background (Key 2) (Val 10)) (Key 1) (Val 20)) (Key 2)
       = Inr (Val 10)
   \<and> Value (ValueCtx (ValueCtx Background (Key 2) (Val 10)) (Key 1) (Val 20)) (Key 3)
       = Inr NilVal"
  using value_shadowing [where s = Background and k = "Key 1" and ?v1.0 = "Val 10"
      and ?c1.0 = "ValueCtx Background (Key 1) (Val 10)" and ?v2.0 = "Val 20"
      and ?c2.0 = "ValueCtx (ValueCtx Background (Key 1) (Val 10)) (Key 1) (Val 20)"
      and k' = "Key 2" and p = "ValueCtx Background (Key 2) (Val 10)" and v = "Val 20"]
  by (simp add: WithValue_def Background_def background_def)

theorem value_shadowing_counterexample:
  "Comparable NaNKey
   \<and> WithValue (Some Background) NaNKey (Val 10) = Inr (ValueCtx Background NaNKey (Val 10))
   \<and> WithValue (Some (ValueCtx Background NaNKey (Val 10))) NaNKey (Val 20)
       = Inr (ValueCtx (ValueCtx Background NaNKey (Val 10)) NaNKey (Val 20))
   \<and> Value (ValueCtx (ValueCtx Background NaNKey (Val 10)) NaNKey (Val 20)) NaNKey
       = Inr NilVal
   \<and> Comparable (StructKey 0)
   \<and> WithValue (Some (ValueCtx Background (StructKey 0) (Val 10))) (StructKey 0) (Val 20)
       = Inr (ValueCtx (ValueCtx Background (StructKey 0) (Val 10)) (StructKey 0) (Val 20))
   \<and> Value (ValueCtx (ValueCtx Background (StructKey 0) (Val 10)) (StructKey 0) (Val 20))
        (StructKey 0) = Inl (Panic ''runtime error: comparing uncomparable type'')"
  by (simp add: WithValue_def Background_def background_def)

section \<open>Misuse at construction\<close>

text \<open>
  Claim C8. Misuse panics instead of returning an error: \<open>WithCancel\<close>, \<open>WithDeadline\<close>
  and \<open>WithValue\<close> panic on a nil parent, \<open>WithValue\<close> panics on a nil key and on a key
  whose type is not comparable, and \<open>cancel\<close> (of either type) panics on a nil error.
\<close>

theorem misuse_panics:
  "WithCancel n s None = Inl (Panic ''cannot create context from nil parent'')
   \<and> WithDeadline n now s None d = Inl (Panic ''cannot create context from nil parent'')
   \<and> WithValue None k v = Inl (Panic ''cannot create context from nil parent'')
   \<and> WithValue (Some p) NilKey v = Inl (Panic ''nil key'')
   \<and> (\<not> Comparable k \<longrightarrow> WithValue (Some p) k v = Inl (Panic ''key is not comparable''))
   \<and> cancel n s c rfp None = Inl (Panic ''context: internal error: missing cancel error'')
   \<and> cancelCtx_cancel n s a p rfp None
       = Inl (Panic ''context: internal error: missing cancel error'')
   \<and> timerCtx_cancel n s a p rfp None
       = Inl (Panic ''context: internal error: missing cancel error'')"
  by (cases c; cases k) (simp_all add: WithCancel_def WithDeadline_def WithValue_def seq_def)

theorem misuse_panics_witness:
  "\<not> Comparable (SliceKey 0)
   \<and> WithValue (Some Background) (SliceKey 0) NilVal = Inl (Panic ''key is not comparable'')
   \<and> WithCancel 0 init_state None = Inl (Panic ''cannot create context from nil parent'')
   \<and> cancel 0 init_state (CancelCtxC 0 Background) True None
       = Inl (Panic ''context: internal error: missing cancel error'')"
  using misuse_panics [where n = 0 and s = init_state and k = "SliceKey 0" and v = NilVal
      and p = Background and c = "CancelCtxC 0 Background" and rfp = True]
  by simp

lemma err_rel_refl: "err_rel e s s"
  by (simp add: err_rel_def)

lemma misc_rel_refl: "misc_rel s s"
  by (simp add: misc_rel_def)

lemma misc_rel_trans: "misc_rel s s1 \<Longrightarrow> misc_rel s1 s2 \<Longrightarrow> misc_rel s s2"
  unfolding misc_rel_def
  apply (intro conjI)
           apply simp_all
    apply blast
   apply (metis (no_types, lifting) image_mono subsetD list.set_map set_mp)
  apply (metis append.assoc)
  done

lemma err_rel_trans:
  assumes "err_rel e s s1" and "err_rel e s1 s2"
  shows "err_rel e s s2"
proof -
  have a1: "\<And>x. err s1 x = err s x \<or> (err s x = None \<and> err s1 x = Some e)"
    and b1: "\<And>x. err s1 x = err s x \<Longrightarrow> children s1 x = children s x \<and> done_ch s1 x = done_ch s x"
    and c1: "\<And>x. err s x = None \<Longrightarrow> err s1 x \<noteq> None \<Longrightarrow>
          children s1 x = None \<and>
          (\<exists>d. done_ch s1 x = Some d \<and> (d = closedchan \<or> d \<in> set (closed s1))) \<and>
          (done_ch s x \<noteq> None \<longrightarrow> done_ch s1 x = done_ch s x) \<and>
          (\<forall>c \<in> set (children_list s x). err s1 (canceler_addr c) \<noteq> None)"
    and d1: "set (closed s) \<subseteq> set (closed s1)"
    and e1: "\<And>d. d \<in> set (closed s1) \<Longrightarrow> d \<in> set (closed s) \<or>
          (\<exists>x. err s x = None \<and> err s1 x \<noteq> None \<and> done_ch s x = Some d)"
    using assms(1) unfolding err_rel_def by blast+
  have a2: "\<And>x. err s2 x = err s1 x \<or> (err s1 x = None \<and> err s2 x = Some e)"
    and b2: "\<And>x. err s2 x = err s1 x \<Longrightarrow> children s2 x = children s1 x \<and> done_ch s2 x = done_ch s1 x"
    and c2: "\<And>x. err s1 x = None \<Longrightarrow> err s2 x \<noteq> None \<Longrightarrow>
          children s2 x = None \<and>
          (\<exists>d. done_ch s2 x = Some d \<and> (d = closedchan \<or> d \<in> set (closed s2))) \<and>
          (done_ch s1 x \<noteq> None \<longrightarrow> done_ch s2 x = done_ch s1 x) \<and>
          (\<forall>c \<in> set (children_list s1 x). err s2 (canceler_addr c) \<noteq> None)"
    and d2: "set (closed s1) \<subseteq> set (closed s2)"
    and e2: "\<And>d. d \<in> set (closed s2) \<Longrightarrow> d \<in> set (closed s1) \<or>
          (\<exists>x. err s1 x = None \<and> err s2 x \<noteq> None \<and> done_ch s1 x = Some d)"
    using assms(2) unfolding err_rel_def by blast+
  have A: "\<And>x. err s2 x = err s x \<or> (err s x = None \<and> err s2 x = Some e)"
    using a1 a2 by metis
  have B: "\<And>x. err s2 x = err s x \<Longrightarrow>
      children s2 x = children s x \<and> done_ch s2 x = done_ch s x"
  proof -
    fix x assume h: "err s2 x = err s x"
    have "err s1 x = err s x" using a1[of x] a2[of x] h by auto
    then show "children s2 x = children s x \<and> done_ch s2 x = done_ch s x"
      using b1[of x] b2[of x] h by simp
  qed
  have C: "\<And>x. err s x = None \<Longrightarrow> err s2 x \<noteq> None \<Longrightarrow>
          children s2 x = None \<and>
          (\<exists>d. done_ch s2 x = Some d \<and> (d = closedchan \<or> d \<in> set (closed s2))) \<and>
          (done_ch s x \<noteq> None \<longrightarrow> done_ch s2 x = done_ch s x) \<and>
          (\<forall>c \<in> set (children_list s x). err s2 (canceler_addr c) \<noteq> None)"
  proof -
    fix x assume h: "err s x = None" "err s2 x \<noteq> None"
    show "children s2 x = None \<and>
          (\<exists>d. done_ch s2 x = Some d \<and> (d = closedchan \<or> d \<in> set (closed s2))) \<and>
          (done_ch s x \<noteq> None \<longrightarrow> done_ch s2 x = done_ch s x) \<and>
          (\<forall>c \<in> set (children_list s x). err s2 (canceler_addr c) \<noteq> None)"
    proof (cases "err s1 x = None")
      case True
      then have eq: "children s1 x = children s x" "done_ch s1 x = done_ch s x"
        using b1[of x] h by simp_all
      then have "children_list s1 x = children_list s x"
        by (simp add: children_list_def)
      then show ?thesis using c2[OF True h(2)] eq by simp
    next
      case False
      then have e12: "err s2 x = err s1 x" using a2[of x] by auto
      have k: "\<forall>c \<in> set (children_list s x). err s2 (canceler_addr c) \<noteq> None"
      proof
        fix c assume "c \<in> set (children_list s x)"
        then have "err s1 (canceler_addr c) \<noteq> None" using c1[OF h(1) False] by blast
        then show "err s2 (canceler_addr c) \<noteq> None" using a2[of "canceler_addr c"] by auto
      qed
      show ?thesis using c1[OF h(1) False] b2[OF e12] d2 k by auto
    qed
  qed
  have D: "set (closed s) \<subseteq> set (closed s2)" using d1 d2 by blast
  have E: "\<And>d. d \<in> set (closed s2) \<Longrightarrow> d \<in> set (closed s) \<or>
          (\<exists>x. err s x = None \<and> err s2 x \<noteq> None \<and> done_ch s x = Some d)"
  proof -
    fix d assume "d \<in> set (closed s2)"
    then consider "d \<in> set (closed s1)"
      | x where "err s1 x = None" "err s2 x \<noteq> None" "done_ch s1 x = Some d"
      using e2 by blast
    then show "d \<in> set (closed s) \<or>
          (\<exists>x. err s x = None \<and> err s2 x \<noteq> None \<and> done_ch s x = Some d)"
    proof cases
      case 1
      then consider "d \<in> set (closed s)"
        | x where "err s x = None" "err s1 x \<noteq> None" "done_ch s x = Some d"
        using e1 by blast
      then show ?thesis
      proof cases
        case 1 then show ?thesis by simp
      next
        case 2
        then have "err s2 x \<noteq> None" using a2[of x] by auto
        then show ?thesis using 2 by blast
      qed
    next
      case 2
      then have "err s x = None" using a1[of x] by auto
      moreover have "done_ch s1 x = done_ch s x" using b1[of x] 2(1) \<open>err s x = None\<close> by simp
      ultimately show ?thesis using 2 by auto
    qed
  qed
  show ?thesis unfolding err_rel_def using A B C D E by blast
qed

declare cancelCtx_cancel.simps [simp del] timerCtx_cancel.simps [simp del]

lemma cancelCtx_cancel_eq:
  "cancelCtx_cancel n s a p rfp (Some e) =
     (if a \<in> set (held s) then Inl Deadlock
      else if err s a \<noteq> None then Inr (s\<lparr>calls := calls s @ [(a, held s)]\<rparr>)
      else if (\<exists>d. done_ch s a = Some d \<and> d \<in> set (closed s))
      then Inl (Panic ''close of closed channel'')
      else seq (cancel_children n (mark s a e) (children_list s a) (Some e)) (\<lambda>s3.
             if rfp then removeChild (finish s3 a) p (CancelCtxC a p)
             else Inr (finish s3 a)))"
proof -
  have u: "\<And>t. unlock (t\<lparr>held := a # held s\<rparr>) a = t\<lparr>held := held s\<rparr>"
    by (simp add: unlock_def)
  show ?thesis
    by (cases "done_ch s a")
      (simp_all add: cancelCtx_cancel.simps lock_def close_chan_def mark_def u
        finish_def[symmetric] children_list_def Let_def)
qed

lemma timerCtx_cancel_eq:
  "timerCtx_cancel n s a p rfp e =
     seq (cancelCtx_cancel n s a p False e) (\<lambda>s1.
     seq (if rfp then removeChild s1 p (TimerCtxC a p) else Inr s1) (\<lambda>s2.
       if a \<in> set (held s2) then Inl Deadlock else Inr (clear_timer s2 a)))"
proof -
  have "\<And>s2. seq (lock s2 a) (\<lambda>s3.
       Inr (unlock
         (case timer s3 a of
            None \<Rightarrow> s3
          | Some t \<Rightarrow> (Stop s3 t)\<lparr>timer := (timer s3)(a := None)\<rparr>)
         a)) = (if a \<in> set (held s2) then Inl Deadlock else Inr (clear_timer s2 a))"
    by (auto simp: lock_def unlock_def clear_timer_def Stop_def split: option.splits)
  then show ?thesis by (simp add: timerCtx_cancel.simps)
qed

lemma misc_rel_sandwich:
  "misc_rel (mark s a e) s3 \<Longrightarrow> misc_rel s (finish s3 a)"
  by (auto simp: misc_rel_def mark_def finish_def unlock_def)

lemma misc_rel_log: "misc_rel s (s\<lparr>calls := calls s @ l\<rparr>)"
  by (simp add: misc_rel_def)

lemma err_rel_log: "err_rel e s (s\<lparr>calls := l\<rparr>)"
  by (simp add: err_rel_def children_list_def)

lemma misc_rel_clear_timer: "misc_rel s (clear_timer s a)"
  by (auto simp: misc_rel_def clear_timer_def split: option.splits)

lemma err_rel_clear_timer: "err_rel e s (clear_timer s a)"
  by (auto simp: err_rel_def clear_timer_def children_list_def split: option.splits)

lemma err_rel_sandwich:
  assumes live: "err s a = None"
    and rel: "err_rel e (mark s a e) s3"
    and kids: "\<forall>c \<in> set (children_list s a). err s3 (canceler_addr c) \<noteq> None"
  shows "err_rel e s (finish s3 a)"
proof -
  let ?m = "mark s a e" and ?f = "finish s3 a"
  have a1: "\<And>x. err s3 x = err ?m x \<or> (err ?m x = None \<and> err s3 x = Some e)"
    and b1: "\<And>x. err s3 x = err ?m x \<Longrightarrow>
          children s3 x = children ?m x \<and> done_ch s3 x = done_ch ?m x"
    and c1: "\<And>x. err ?m x = None \<Longrightarrow> err s3 x \<noteq> None \<Longrightarrow>
          children s3 x = None \<and>
          (\<exists>d. done_ch s3 x = Some d \<and> (d = closedchan \<or> d \<in> set (closed s3))) \<and>
          (done_ch ?m x \<noteq> None \<longrightarrow> done_ch s3 x = done_ch ?m x) \<and>
          (\<forall>c \<in> set (children_list ?m x). err s3 (canceler_addr c) \<noteq> None)"
    and d1: "set (closed ?m) \<subseteq> set (closed s3)"
    and e1: "\<And>d. d \<in> set (closed s3) \<Longrightarrow> d \<in> set (closed ?m) \<or>
          (\<exists>x. err ?m x = None \<and> err s3 x \<noteq> None \<and> done_ch ?m x = Some d)"
    using rel unfolding err_rel_def by blast+
  have m_err: "\<And>x. err ?m x = (if x = a then Some e else err s x)"
    by (simp add: mark_def)
  have m_ch: "\<And>x. children ?m x = children s x" "\<And>x. children_list ?m x = children_list s x"
    by (simp_all add: mark_def children_list_def)
  have m_done: "\<And>x. x \<noteq> a \<Longrightarrow> done_ch ?m x = done_ch s x"
    by (simp add: mark_def split: option.splits)
  have m_done_a: "done_ch ?m a = (case done_ch s a of None \<Rightarrow> Some closedchan | Some d \<Rightarrow> Some d)"
    by (simp add: mark_def split: option.splits)
  have m_closed: "set (closed ?m) = set (closed s) \<union> (case done_ch s a of None \<Rightarrow> {} | Some d \<Rightarrow> {d})"
    by (simp add: mark_def split: option.splits)
  have f_err: "\<And>x. err ?f x = err s3 x" and f_done: "\<And>x. done_ch ?f x = done_ch s3 x"
    and f_closed: "closed ?f = closed s3"
    and f_ch: "\<And>x. children ?f x = (if x = a then None else children s3 x)"
    by (simp_all add: finish_def unlock_def)
  have ea: "err s3 a = Some e" using a1[of a] m_err[of a] by auto
  have da: "done_ch s3 a = done_ch ?m a" using b1[of a] ea m_err[of a] by simp
  have A: "\<And>x. err ?f x = err s x \<or> (err s x = None \<and> err ?f x = Some e)"
    using a1 m_err live ea f_err by (metis (full_types))
  have B: "\<And>x. err ?f x = err s x \<Longrightarrow>
      children ?f x = children s x \<and> done_ch ?f x = done_ch s x"
  proof -
    fix x assume h: "err ?f x = err s x"
    then have "x \<noteq> a" using ea live f_err by auto
    then show "children ?f x = children s x \<and> done_ch ?f x = done_ch s x"
      using b1[of x] h m_err[of x] m_ch m_done f_err f_done f_ch by simp
  qed
  have C: "\<And>x. err s x = None \<Longrightarrow> err ?f x \<noteq> None \<Longrightarrow>
          children ?f x = None \<and>
          (\<exists>d. done_ch ?f x = Some d \<and> (d = closedchan \<or> d \<in> set (closed ?f))) \<and>
          (done_ch s x \<noteq> None \<longrightarrow> done_ch ?f x = done_ch s x) \<and>
          (\<forall>c \<in> set (children_list s x). err ?f (canceler_addr c) \<noteq> None)"
  proof -
    fix x assume h: "err s x = None" "err ?f x \<noteq> None"
    show "children ?f x = None \<and>
          (\<exists>d. done_ch ?f x = Some d \<and> (d = closedchan \<or> d \<in> set (closed ?f))) \<and>
          (done_ch s x \<noteq> None \<longrightarrow> done_ch ?f x = done_ch s x) \<and>
          (\<forall>c \<in> set (children_list s x). err ?f (canceler_addr c) \<noteq> None)"
    proof (cases "x = a")
      case True
      have "\<exists>d. done_ch s3 a = Some d \<and> (d = closedchan \<or> d \<in> set (closed s3))"
        using da m_done_a d1 m_closed by (cases "done_ch s a") auto
      moreover have "done_ch s a \<noteq> None \<longrightarrow> done_ch s3 a = done_ch s a"
        using da m_done_a by (cases "done_ch s a") auto
      ultimately show ?thesis using True kids f_err f_done f_closed f_ch by simp
    next
      case False
      then have "err ?m x = None" "err s3 x \<noteq> None" using h m_err f_err by simp_all
      from c1[OF this] show ?thesis
        using False m_ch m_done f_err f_done f_closed f_ch by simp
    qed
  qed
  have D: "set (closed s) \<subseteq> set (closed ?f)" using d1 m_closed f_closed by auto
  have E: "\<And>d. d \<in> set (closed ?f) \<Longrightarrow> d \<in> set (closed s) \<or>
          (\<exists>x. err s x = None \<and> err ?f x \<noteq> None \<and> done_ch s x = Some d)"
  proof -
    fix d assume "d \<in> set (closed ?f)"
    then have "d \<in> set (closed s3)" using f_closed by simp
    then consider "d \<in> set (closed ?m)"
      | x where "err ?m x = None" "err s3 x \<noteq> None" "done_ch ?m x = Some d"
      using e1 by blast
    then show "d \<in> set (closed s) \<or>
          (\<exists>x. err s x = None \<and> err ?f x \<noteq> None \<and> done_ch s x = Some d)"
    proof cases
      case 1
      then show ?thesis using m_closed live ea f_err
        by (cases "done_ch s a") auto
    next
      case 2
      then have "x \<noteq> a" using m_err by auto
      then show ?thesis using 2 m_err m_done f_err by auto
    qed
  qed
  show ?thesis unfolding err_rel_def using A B C D E by blast
qed

lemma fanout_rel_refl: "fanout_rel e s s"
  by (simp add: fanout_rel_def err_rel_refl misc_rel_refl)

lemma fanout_rel_trans: "fanout_rel e s s1 \<Longrightarrow> fanout_rel e s1 s2 \<Longrightarrow> fanout_rel e s s2"
  unfolding fanout_rel_def using err_rel_trans misc_rel_trans by blast

lemma fanout_rel_err_mono: "fanout_rel e s s' \<Longrightarrow> err s x \<noteq> None \<Longrightarrow> err s' x = err s x"
  unfolding fanout_rel_def err_rel_def by metis

lemma fanout_cancel:
  "\<forall>s' e. cancel n s c rfp eo = Inr s' \<longrightarrow> rfp = False \<longrightarrow> eo = Some e \<longrightarrow>
      fanout_rel e s s' \<and> err s' (canceler_addr c) \<noteq> None"
  "\<forall>s' e. cancelCtx_cancel n s a p rfp eo = Inr s' \<longrightarrow> rfp = False \<longrightarrow> eo = Some e \<longrightarrow>
      fanout_rel e s s' \<and> err s' a \<noteq> None"
  "\<forall>s' e. timerCtx_cancel n s a p rfp eo = Inr s' \<longrightarrow> rfp = False \<longrightarrow> eo = Some e \<longrightarrow>
      fanout_rel e s s' \<and> err s' a \<noteq> None"
  "\<forall>s' e. cancel_children n s cs eo = Inr s' \<longrightarrow> eo = Some e \<longrightarrow>
      fanout_rel e s s' \<and> (\<forall>c \<in> set cs. err s' (canceler_addr c) \<noteq> None)"
proof (induction n s c rfp eo and n s a p rfp eo and n s a p rfp eo and n s cs eo
    rule: cancel_cancelCtx_cancel_timerCtx_cancel_cancel_children.induct)
  case (1 n s a p rfp e)
  then show ?case by simp
next
  case (2 n s a p rfp e)
  then show ?case by simp
next
  case (3 n s a p rfp eo)
  show ?case
  proof (intro allI impI)
    fix s' e
    assume r: "cancelCtx_cancel n s a p rfp eo = Inr s'" and f: "rfp = False" and e: "eo = Some e"
    show "fanout_rel e s s' \<and> err s' a \<noteq> None"
    proof (cases "err s a \<noteq> None")
      case True
      then have "s' = s\<lparr>calls := calls s @ [(a, held s)]\<rparr>"
        using r f e by (simp add: cancelCtx_cancel_eq split: if_splits)
      then show ?thesis using True
        by (simp add: fanout_rel_def err_rel_log misc_rel_log)
    next
      case False
      then obtain s3 where c: "cancel_children n (mark s a e) (children_list s a) (Some e) = Inr s3"
        and s': "s' = finish s3 a"
        using r f e by (auto simp: cancelCtx_cancel_eq seq_eq_Inr split: if_splits)
      have cl: "children_list (mark s a e) a = children_list s a"
        by (simp add: mark_def children_list_def)
      have "\<not> err s a \<noteq> None" "eo \<noteq> None"
        using False e by simp_all
      from 3[OF this(2) this(1), of "mark s a e"] e c cl
      have ih: "fanout_rel e (mark s a e) s3"
        "\<forall>c \<in> set (children_list s a). err s3 (canceler_addr c) \<noteq> None"
        by auto
      have "err_rel e s s'"
        using err_rel_sandwich[of s a e s3] False ih s' by (simp add: fanout_rel_def)
      moreover have "misc_rel s s'"
        using misc_rel_sandwich[of s a e s3] ih s' by (simp add: fanout_rel_def)
      moreover have "err s' a \<noteq> None"
        using fanout_rel_err_mono[OF ih(1), of a] s' by (simp add: mark_def finish_def unlock_def)
      ultimately show ?thesis by (simp add: fanout_rel_def)
    qed
  qed
next
  case (4 n s a p rfp eo)
  show ?case
  proof (intro allI impI)
    fix s' e
    assume r: "timerCtx_cancel n s a p rfp eo = Inr s'" and f: "rfp = False" and e: "eo = Some e"
    then obtain s1 where c: "cancelCtx_cancel n s a p False eo = Inr s1"
      and s': "s' = clear_timer s1 a"
      by (auto simp: timerCtx_cancel_eq seq_eq_Inr split: if_splits)
    from 4 c e have ih: "fanout_rel e s s1" "err s1 a \<noteq> None" by auto
    have "fanout_rel e s1 s'"
      using s' by (simp add: fanout_rel_def err_rel_clear_timer misc_rel_clear_timer)
    moreover have "err s' a = err s1 a"
      using s' by (simp add: clear_timer_def split: option.splits)
    ultimately show "fanout_rel e s s' \<and> err s' a \<noteq> None"
      using ih fanout_rel_trans by auto
  qed
next
  case (5 n s e)
  then show ?case by (simp add: fanout_rel_refl)
next
  case (6 s ch cs e)
  then show ?case by simp
next
  case (7 n s ch cs eo)
  show ?case
  proof (intro allI impI)
    fix s' e
    assume r: "cancel_children (Suc n) s (ch # cs) eo = Inr s'" and e: "eo = Some e"
    then obtain s1 where c1: "cancel n s ch False eo = Inr s1"
      and c2: "cancel_children (Suc n) s1 cs eo = Inr s'"
      by (auto simp: seq_eq_Inr)
    from 7(1) c1 e have ih1: "fanout_rel e s s1" "err s1 (canceler_addr ch) \<noteq> None" by auto
    from 7(2)[of s1] c2 e have ih2: "fanout_rel e s1 s'"
      "\<forall>c \<in> set cs. err s' (canceler_addr c) \<noteq> None" by auto
    have "err s' (canceler_addr ch) \<noteq> None"
      using fanout_rel_err_mono[OF ih2(1), of "canceler_addr ch"] ih1(2) by simp
    then show "fanout_rel e s s' \<and> (\<forall>c \<in> set (ch # cs). err s' (canceler_addr c) \<noteq> None)"
      using ih1 ih2 fanout_rel_trans by auto
  qed
qed

lemma cancelCtx_Done_eq:
  "cancelCtx_Done s a =
     (case done_ch s a of
        Some d \<Rightarrow> Inr (Some d, s)
      | None \<Rightarrow> if a \<in> set (held s) then Inl Deadlock
                else Inr (Some (next_chan s),
                  s\<lparr>next_chan := Suc (next_chan s),
                     done_ch := (done_ch s)(a := Some (next_chan s))\<rparr>))"
  by (auto simp: cancelCtx_Done_def lock_def unlock_def Let_def split: option.splits)

lemma remove_rel_refl: "remove_rel c s s"
  by (simp add: remove_rel_def)

lemma Done_rel: "Done s c = Inr (dn, s') \<Longrightarrow> remove_rel ch s s'"
  by (induction s c rule: Done.induct)
    (auto simp: cancelCtx_Done_eq remove_rel_def split: option.splits if_splits)

lemma Done_total: "held s = [] \<Longrightarrow> \<exists>dn s'. Done s c = Inr (dn, s')"
  by (induction s c rule: Done.induct)
    (auto simp: cancelCtx_Done_eq split: option.splits)

lemma cancelCtx_Done_idem:
  assumes "cancelCtx_Done s a = Inr (dn, s')"
  shows "cancelCtx_Done s' a = Inr (dn, s')"
proof (cases "done_ch s a")
  case None
  then show ?thesis using assms by (auto simp: cancelCtx_Done_eq split: if_splits)
next
  case (Some d)
  then have "s' = s" "dn = Some d" using assms by (auto simp: cancelCtx_Done_eq)
  then show ?thesis using Some by (simp add: cancelCtx_Done_eq)
qed

lemma Done_idem: "Done s c = Inr (dn, s') \<Longrightarrow> Done s' c = Inr (dn, s')"
  by (induction s c rule: Done.induct) (auto simp: cancelCtx_Done_idem)

lemma parentCancelCtx_eq:
  "parentCancelCtx s parent =
     seq (Done s parent) (\<lambda>r.
       Inr (if fst r = Some closedchan \<or> fst r = None then None
            else (case ptr_lookup parent of
               CancelCtxPtr p \<Rightarrow> if done_ch (snd r) p \<noteq> fst r then None else Some p
             | _ \<Rightarrow> None), snd r))"
  by (cases "Done s parent")
    (auto simp: parentCancelCtx_def split: val.splits prod.splits)

lemma parentCancelCtx_rel: "parentCancelCtx s c = Inr (po, s') \<Longrightarrow> remove_rel ch s s'"
  by (auto simp: parentCancelCtx_eq seq_eq_Inr dest: Done_rel)

lemma parentCancelCtx_total: "held s = [] \<Longrightarrow> \<exists>po s'. parentCancelCtx s c = Inr (po, s')"
  using Done_total[of s c] by (auto simp: parentCancelCtx_eq)

lemma removeChild_eq:
  "removeChild s parent child =
     seq (parentCancelCtx s parent) (\<lambda>r.
       case fst r of
         None \<Rightarrow> Inr (snd r)
       | Some p \<Rightarrow>
           if p \<in> set (held (snd r)) then Inl Deadlock
           else Inr ((snd r)\<lparr>children :=
                  (children (snd r))(p := map_option (removeAll child) (children (snd r) p))\<rparr>))"
proof -
  have "\<And>s1 p. seq (lock s1 p) (\<lambda>s2.
             Inr (unlock
               (case children s2 p of
                  None \<Rightarrow> s2
                | Some cs \<Rightarrow> s2\<lparr>children := (children s2)(p := Some (removeAll child cs))\<rparr>)
               p)) = (if p \<in> set (held s1) then Inl Deadlock
           else Inr (s1\<lparr>children :=
                  (children s1)(p := map_option (removeAll child) (children s1 p))\<rparr>))"
    by (auto simp: lock_def unlock_def fun_upd_idem split: option.splits)
  then show ?thesis
    by (cases "parentCancelCtx s parent")
      (auto simp: removeChild_def split: option.splits prod.splits)
qed

lemma remove_rel_step:
  "remove_rel c s s1 \<Longrightarrow>
   remove_rel c s (s1\<lparr>children := (children s1)(p := map_option (removeAll c) (children s1 p))\<rparr>)"
proof -
  assume r: "remove_rel c s s1"
  have "\<And>x. children s1 x = children s x \<or>
      children s1 x = map_option (removeAll c) (children s x)"
    using r by (simp add: remove_rel_def)
  then have "map_option (removeAll c) (children s1 p) = map_option (removeAll c) (children s p)"
  proof (cases "children s p")
    case None
    then show ?thesis using \<open>\<And>x. children s1 x = children s x \<or>
      children s1 x = map_option (removeAll c) (children s x)\<close>[of p] by auto
  next
    case (Some cs)
    have "removeAll c (removeAll c cs) = removeAll c cs" by simp
    then show ?thesis using Some \<open>\<And>x. children s1 x = children s x \<or>
      children s1 x = map_option (removeAll c) (children s x)\<close>[of p] by auto
  qed
  then show ?thesis using r by (auto simp: remove_rel_def)
qed

lemma removeChild_rel: "removeChild s parent c = Inr s' \<Longrightarrow> remove_rel c s s'"
  by (auto simp: removeChild_eq seq_eq_Inr split: option.splits if_splits
      intro: remove_rel_step dest: parentCancelCtx_rel)

lemma removeChild_total: "held s = [] \<Longrightarrow> \<exists>s'. removeChild s parent c = Inr s'"
proof -
  assume h: "held s = []"
  then obtain po s1 where p: "parentCancelCtx s parent = Inr (po, s1)"
    using parentCancelCtx_total by blast
  then have "held s1 = []" using parentCancelCtx_rel[OF p, of c] h by (simp add: remove_rel_def)
  then show ?thesis using p by (cases po) (simp_all add: removeChild_eq)
qed

lemma tree_inv_children:
  "tree_inv s \<Longrightarrow> x < next_addr s \<Longrightarrow> c \<in> set (children_list s x) \<Longrightarrow>
   x < canceler_addr c \<and> canceler_addr c < next_addr s"
  by (simp add: tree_inv_def)

lemma tree_inv_open:
  "tree_inv s \<Longrightarrow> x < next_addr s \<Longrightarrow> err s x = None \<Longrightarrow> done_ch s x = Some d \<Longrightarrow>
   d \<notin> set (closed s)"
  by (auto simp: tree_inv_def)

lemma tree_inv_distinct:
  "tree_inv s \<Longrightarrow> x < next_addr s \<Longrightarrow> y < next_addr s \<Longrightarrow> err s x = None \<Longrightarrow>
   err s y = None \<Longrightarrow> done_ch s x = Some d \<Longrightarrow> done_ch s y = Some d \<Longrightarrow> y = x"
  by (auto simp: tree_inv_def)

lemma tree_inv_I:
  assumes "closedchan \<in> set (closed s)"
    and "\<And>x c. x < next_addr s \<Longrightarrow> c \<in> set (children_list s x) \<Longrightarrow>
          x < canceler_addr c \<and> canceler_addr c < next_addr s"
    and "\<And>x d. x < next_addr s \<Longrightarrow> err s x = None \<Longrightarrow> done_ch s x = Some d \<Longrightarrow>
          d \<notin> set (closed s)"
    and "\<And>x y d. x < next_addr s \<Longrightarrow> y < next_addr s \<Longrightarrow> err s x = None \<Longrightarrow>
          err s y = None \<Longrightarrow> done_ch s x = Some d \<Longrightarrow> done_ch s y = Some d \<Longrightarrow> y = x"
  shows "tree_inv s"
  unfolding tree_inv_def using assms by (auto split: option.splits)

lemma tree_inv_mark:
  assumes inv: "tree_inv s" and a: "a < next_addr s" and live: "err s a = None"
  shows "tree_inv (mark s a e)"
proof (rule tree_inv_I)
  let ?m = "mark s a e"
  have m_err: "\<And>x. err ?m x = (if x = a then Some e else err s x)"
    by (simp add: mark_def)
  have m_ch: "\<And>x. children_list ?m x = children_list s x"
    by (simp add: mark_def children_list_def)
  have m_done: "\<And>x. x \<noteq> a \<Longrightarrow> done_ch ?m x = done_ch s x"
    by (simp add: mark_def split: option.splits)
  have m_closed: "set (closed ?m) = set (closed s) \<union> (case done_ch s a of None \<Rightarrow> {} | Some d \<Rightarrow> {d})"
    by (simp add: mark_def split: option.splits)
  have m_next: "next_addr ?m = next_addr s" by (simp add: mark_def)
  show "closedchan \<in> set (closed ?m)" using inv m_closed by (simp add: tree_inv_def)
  show "\<And>x c. x < next_addr ?m \<Longrightarrow> c \<in> set (children_list ?m x) \<Longrightarrow>
          x < canceler_addr c \<and> canceler_addr c < next_addr ?m"
    using tree_inv_children[OF inv] m_ch m_next by simp
  show "\<And>x d. x < next_addr ?m \<Longrightarrow> err ?m x = None \<Longrightarrow> done_ch ?m x = Some d \<Longrightarrow>
          d \<notin> set (closed ?m)"
  proof -
    fix x d assume h: "x < next_addr ?m" "err ?m x = None" "done_ch ?m x = Some d"
    then have xa: "x \<noteq> a" and lx: "err s x = None" using m_err[of x] by (auto split: if_splits)
    have dx: "done_ch s x = Some d" using h xa m_done by simp
    have "d \<notin> set (closed s)" using tree_inv_open[OF inv _ lx dx] h m_next by simp
    moreover have "done_ch s a \<noteq> Some d"
      using tree_inv_distinct[OF inv a _ live lx _ dx] h m_next xa by auto
    ultimately show "d \<notin> set (closed ?m)" using m_closed by (auto split: option.splits)
  qed
  show "\<And>x y d. x < next_addr ?m \<Longrightarrow> y < next_addr ?m \<Longrightarrow> err ?m x = None \<Longrightarrow>
          err ?m y = None \<Longrightarrow> done_ch ?m x = Some d \<Longrightarrow> done_ch ?m y = Some d \<Longrightarrow> y = x"
  proof -
    fix x y d assume h: "x < next_addr ?m" "y < next_addr ?m" "err ?m x = None"
      "err ?m y = None" "done_ch ?m x = Some d" "done_ch ?m y = Some d"
    then have "x \<noteq> a" "y \<noteq> a" "err s x = None" "err s y = None"
      using m_err[of x] m_err[of y] by (auto split: if_splits)
    then show "y = x" using tree_inv_distinct[OF inv, of x y d] h m_done m_next by simp
  qed
qed

lemma tree_inv_frame:
  assumes inv: "tree_inv s"
    and eqs: "closed s' = closed s" "next_addr s' = next_addr s" "err s' = err s"
      "done_ch s' = done_ch s"
    and ch: "\<And>x. set (children_list s' x) \<subseteq> set (children_list s x)"
  shows "tree_inv s'"
proof (rule tree_inv_I)
  show "closedchan \<in> set (closed s')" using inv eqs by (simp add: tree_inv_def)
  show "\<And>x c. x < next_addr s' \<Longrightarrow> c \<in> set (children_list s' x) \<Longrightarrow>
          x < canceler_addr c \<and> canceler_addr c < next_addr s'"
    using tree_inv_children[OF inv] ch eqs by (metis subsetD)
  show "\<And>x d. x < next_addr s' \<Longrightarrow> err s' x = None \<Longrightarrow> done_ch s' x = Some d \<Longrightarrow>
          d \<notin> set (closed s')"
    using tree_inv_open[OF inv] eqs by simp
  show "\<And>x y d. x < next_addr s' \<Longrightarrow> y < next_addr s' \<Longrightarrow> err s' x = None \<Longrightarrow>
          err s' y = None \<Longrightarrow> done_ch s' x = Some d \<Longrightarrow> done_ch s' y = Some d \<Longrightarrow> y = x"
    using tree_inv_distinct[OF inv] eqs by simp
qed

lemma tree_inv_finish: "tree_inv s \<Longrightarrow> tree_inv (finish s a)"
  by (erule tree_inv_frame) (auto simp: finish_def unlock_def children_list_def)

lemma tree_inv_log: "tree_inv s \<Longrightarrow> tree_inv (s\<lparr>calls := l\<rparr>)"
  by (erule tree_inv_frame) (auto simp: children_list_def)

lemma tree_inv_clear_timer: "tree_inv s \<Longrightarrow> tree_inv (clear_timer s a)"
  by (erule tree_inv_frame) (auto simp: clear_timer_def children_list_def split: option.splits)

lemma tree_inv_fanout:
  assumes inv: "tree_inv s" and rel: "fanout_rel e s s'"
    and touched: "\<forall>x. err s' x \<noteq> err s x \<longrightarrow> x < next_addr s"
  shows "tree_inv s'"
proof (rule tree_inv_I)
  have a1: "\<And>x. err s' x = err s x \<or> (err s x = None \<and> err s' x = Some e)"
    and b1: "\<And>x. err s' x = err s x \<Longrightarrow>
          children s' x = children s x \<and> done_ch s' x = done_ch s x"
    and c1: "\<And>x. err s x = None \<Longrightarrow> err s' x \<noteq> None \<Longrightarrow> children s' x = None"
    and d1: "set (closed s) \<subseteq> set (closed s')"
    and e1: "\<And>d. d \<in> set (closed s') \<Longrightarrow> d \<in> set (closed s) \<or>
          (\<exists>x. err s x = None \<and> err s' x \<noteq> None \<and> done_ch s x = Some d)"
    using rel unfolding fanout_rel_def err_rel_def by blast+
  have nx: "next_addr s' = next_addr s" using rel by (simp add: fanout_rel_def misc_rel_def)
  have live: "\<And>x. err s' x = None \<Longrightarrow> err s x = None \<and> done_ch s' x = done_ch s x"
    using a1 b1 by (metis option.distinct(1))
  show "closedchan \<in> set (closed s')" using inv d1 by (auto simp: tree_inv_def)
  show "\<And>x c. x < next_addr s' \<Longrightarrow> c \<in> set (children_list s' x) \<Longrightarrow>
          x < canceler_addr c \<and> canceler_addr c < next_addr s'"
  proof -
    fix x c assume h: "x < next_addr s'" "c \<in> set (children_list s' x)"
    have "children s' x = children s x \<or> children s' x = None"
      using a1[of x] b1[of x] c1[of x] by auto
    then have "c \<in> set (children_list s x)" using h by (auto simp: children_list_def)
    then show "x < canceler_addr c \<and> canceler_addr c < next_addr s'"
      using tree_inv_children[OF inv] h nx by simp
  qed
  show "\<And>x d. x < next_addr s' \<Longrightarrow> err s' x = None \<Longrightarrow> done_ch s' x = Some d \<Longrightarrow>
          d \<notin> set (closed s')"
  proof
    fix x d assume h: "x < next_addr s'" "err s' x = None" "done_ch s' x = Some d"
      and cl: "d \<in> set (closed s')"
    have lx: "err s x = None" "done_ch s x = Some d" using live[OF h(2)] h by simp_all
    have "d \<notin> set (closed s)" using tree_inv_open[OF inv _ lx] h nx by simp
    then obtain y where y: "err s y = None" "err s' y \<noteq> None" "done_ch s y = Some d"
      using e1[OF cl] by blast
    then have "y < next_addr s" using touched by auto
    then have "y = x" using tree_inv_distinct[OF inv _ _ lx(1) y(1) lx(2) y(3)] h nx by simp
    then show False using y h by simp
  qed
  show "\<And>x y d. x < next_addr s' \<Longrightarrow> y < next_addr s' \<Longrightarrow> err s' x = None \<Longrightarrow>
          err s' y = None \<Longrightarrow> done_ch s' x = Some d \<Longrightarrow> done_ch s' y = Some d \<Longrightarrow> y = x"
    using tree_inv_distinct[OF inv] live nx by metis
qed

lemma fanout_total:
  "rfp = False \<longrightarrow> (\<forall>e. eo = Some e \<longrightarrow> tree_inv s \<longrightarrow> canceler_addr c < next_addr s \<longrightarrow>
      (\<forall>h \<in> set (held s). h < canceler_addr c) \<longrightarrow> next_addr s \<le> n + canceler_addr c + 1 \<longrightarrow>
      (\<exists>s'. cancel n s c rfp eo = Inr s' \<and> tree_inv s' \<and>
            (\<forall>x. err s' x \<noteq> err s x \<longrightarrow> x < next_addr s)))"
  "rfp = False \<longrightarrow> (\<forall>e. eo = Some e \<longrightarrow> tree_inv s \<longrightarrow> a < next_addr s \<longrightarrow>
      (\<forall>h \<in> set (held s). h < a) \<longrightarrow> next_addr s \<le> n + a + 1 \<longrightarrow>
      (\<exists>s'. cancelCtx_cancel n s a p rfp eo = Inr s' \<and> tree_inv s' \<and>
            (\<forall>x. err s' x \<noteq> err s x \<longrightarrow> x < next_addr s)))"
  "rfp = False \<longrightarrow> (\<forall>e. eo = Some e \<longrightarrow> tree_inv s \<longrightarrow> a < next_addr s \<longrightarrow>
      (\<forall>h \<in> set (held s). h < a) \<longrightarrow> next_addr s \<le> n + a + 1 \<longrightarrow>
      (\<exists>s'. timerCtx_cancel n s a p rfp eo = Inr s' \<and> tree_inv s' \<and>
            (\<forall>x. err s' x \<noteq> err s x \<longrightarrow> x < next_addr s)))"
  "\<forall>e. eo = Some e \<longrightarrow> tree_inv s \<longrightarrow>
      (\<forall>c \<in> set cs. canceler_addr c < next_addr s \<and> (\<forall>h \<in> set (held s). h < canceler_addr c)
          \<and> next_addr s \<le> n + canceler_addr c) \<longrightarrow>
      (\<exists>s'. cancel_children n s cs eo = Inr s' \<and> tree_inv s' \<and>
            (\<forall>x. err s' x \<noteq> err s x \<longrightarrow> x < next_addr s))"
proof (induction n s c rfp eo and n s a p rfp eo and n s a p rfp eo and n s cs eo
    rule: cancel_cancelCtx_cancel_timerCtx_cancel_cancel_children.induct)
  case (1 n s a p rfp e)
  then show ?case by simp
next
  case (2 n s a p rfp e)
  then show ?case by simp
next
  case (3 n s a p rfp eo)
  show ?case
  proof (intro allI impI)
    fix e
    assume f: "rfp = False" and e: "eo = Some e" and inv: "tree_inv s"
      and a: "a < next_addr s" and h: "\<forall>h \<in> set (held s). h < a"
      and fuel: "next_addr s \<le> n + a + 1"
    have nh: "a \<notin> set (held s)" using h by auto
    show "\<exists>s'. cancelCtx_cancel n s a p rfp eo = Inr s' \<and> tree_inv s' \<and>
            (\<forall>x. err s' x \<noteq> err s x \<longrightarrow> x < next_addr s)"
    proof (cases "err s a \<noteq> None")
      case True
      then show ?thesis using nh e inv by (simp add: cancelCtx_cancel_eq tree_inv_log)
    next
      case False
      then have live: "err s a = None" by simp
      have op: "\<not> (\<exists>d. done_ch s a = Some d \<and> d \<in> set (closed s))"
        using tree_inv_open[OF inv a live] by auto
      let ?m = "mark s a e"
      have m: "tree_inv ?m" using tree_inv_mark[OF inv a live] .
      have mh: "held ?m = a # held s" "next_addr ?m = next_addr s"
        by (simp_all add: mark_def)
      have kids: "\<forall>c \<in> set (children_list s a). canceler_addr c < next_addr ?m \<and>
          (\<forall>h \<in> set (held ?m). h < canceler_addr c) \<and> next_addr ?m \<le> n + canceler_addr c"
      proof
        fix c assume "c \<in> set (children_list s a)"
        then have "a < canceler_addr c \<and> canceler_addr c < next_addr s"
          using tree_inv_children[OF inv a] by simp
        then show "canceler_addr c < next_addr ?m \<and>
          (\<forall>h \<in> set (held ?m). h < canceler_addr c) \<and> next_addr ?m \<le> n + canceler_addr c"
          using h fuel mh by auto
      qed
      have cl: "children_list ?m a = children_list s a"
        by (simp add: mark_def children_list_def)
      have "\<not> err s a \<noteq> None" "eo \<noteq> None" using False e by simp_all
      from 3[OF this(2) this(1), of ?m] e m kids cl
      obtain s3 where s3: "cancel_children n ?m (children_list s a) (Some e) = Inr s3"
        "tree_inv s3" "\<forall>x. err s3 x \<noteq> err ?m x \<longrightarrow> x < next_addr ?m"
        by auto
      have r: "cancelCtx_cancel n s a p rfp eo = Inr (finish s3 a)"
        using nh live op s3(1) e f by (simp add: cancelCtx_cancel_eq)
      have "\<forall>x. err (finish s3 a) x \<noteq> err s x \<longrightarrow> x < next_addr s"
      proof (intro allI impI)
        fix x assume d: "err (finish s3 a) x \<noteq> err s x"
        show "x < next_addr s"
        proof (cases "x = a")
          case True then show ?thesis using a by simp
        next
          case False
          then have "err ?m x = err s x" by (simp add: mark_def)
          then have "err s3 x \<noteq> err ?m x" using d by (simp add: finish_def unlock_def)
          then show ?thesis using s3(3) mh by simp
        qed
      qed
      then show ?thesis using r tree_inv_finish[OF s3(2)] by blast
    qed
  qed
next
  case (4 n s a p rfp eo)
  show ?case
  proof (intro allI impI)
    fix e
    assume f: "rfp = False" and e: "eo = Some e" and inv: "tree_inv s"
      and a: "a < next_addr s" and h: "\<forall>h \<in> set (held s). h < a"
      and fuel: "next_addr s \<le> n + a + 1"
    from 4 e inv a h fuel obtain s1 where s1: "cancelCtx_cancel n s a p False eo = Inr s1"
      "tree_inv s1" "\<forall>x. err s1 x \<noteq> err s x \<longrightarrow> x < next_addr s"
      by auto
    have "fanout_rel e s s1" using fanout_cancel(2)[of n s a p False eo] s1(1) e by simp
    then have "held s1 = held s" by (simp add: fanout_rel_def misc_rel_def)
    then have nh: "a \<notin> set (held s1)" using h by auto
    have r: "timerCtx_cancel n s a p rfp eo = Inr (clear_timer s1 a)"
      using s1(1) nh f by (simp add: timerCtx_cancel_eq)
    have "err (clear_timer s1 a) = err s1"
      by (simp add: clear_timer_def split: option.splits)
    then show "\<exists>s'. timerCtx_cancel n s a p rfp eo = Inr s' \<and> tree_inv s' \<and>
            (\<forall>x. err s' x \<noteq> err s x \<longrightarrow> x < next_addr s)"
      using r tree_inv_clear_timer[OF s1(2)] s1(3) by auto
  qed
next
  case (5 n s e)
  then show ?case by simp
next
  case (6 s ch cs e)
  then show ?case by auto
next
  case (7 n s ch cs eo)
  show ?case
  proof (intro allI impI)
    fix e
    assume e: "eo = Some e" and inv: "tree_inv s"
      and k: "\<forall>c \<in> set (ch # cs). canceler_addr c < next_addr s \<and>
          (\<forall>h \<in> set (held s). h < canceler_addr c) \<and> next_addr s \<le> Suc n + canceler_addr c"
    from 7(1) e inv k obtain s1 where s1: "cancel n s ch False eo = Inr s1" "tree_inv s1"
      "\<forall>x. err s1 x \<noteq> err s x \<longrightarrow> x < next_addr s"
      by auto
    have "fanout_rel e s s1" using fanout_cancel(1)[of n s ch False eo] s1(1) e by simp
    then have same: "held s1 = held s" "next_addr s1 = next_addr s"
      by (simp_all add: fanout_rel_def misc_rel_def)
    from 7(2)[of s1] e s1(2) k same
    obtain s2 where s2: "cancel_children (Suc n) s1 cs eo = Inr s2" "tree_inv s2"
      "\<forall>x. err s2 x \<noteq> err s1 x \<longrightarrow> x < next_addr s1"
      by auto
    have "cancel_children (Suc n) s (ch # cs) eo = Inr s2" using s1(1) s2(1) by simp
    moreover have "\<forall>x. err s2 x \<noteq> err s x \<longrightarrow> x < next_addr s"
      using s1(3) s2(3) same by metis
    ultimately show "\<exists>s'. cancel_children (Suc n) s (ch # cs) eo = Inr s' \<and> tree_inv s' \<and>
            (\<forall>x. err s' x \<noteq> err s x \<longrightarrow> x < next_addr s)"
      using s2(2) by blast
  qed
qed

lemma remove_rel_clear_timer:
  "remove_rel c s1 s2 \<Longrightarrow> remove_rel c (clear_timer s1 a) (clear_timer s2 a)"
  by (auto simp: remove_rel_def clear_timer_def split: option.splits)

lemma cancel_rfp_partial:
  assumes "cancel n s c rfp (Some e) = Inr s'"
  shows "\<exists>s1. cancel n s c False (Some e) = Inr s1 \<and> remove_rel c s1 s'"
proof (cases c)
  case (CancelCtxC a p)
  show ?thesis
  proof (cases rfp)
    case False
    then show ?thesis using assms remove_rel_refl by auto
  next
    case True
    have r: "cancelCtx_cancel n s a p True (Some e) = Inr s'"
      using assms CancelCtxC True by simp
    show ?thesis
    proof (cases "err s a \<noteq> None")
      case True
      then show ?thesis using r CancelCtxC remove_rel_refl
        by (auto simp: cancelCtx_cancel_eq split: if_splits)
    next
      case False
      then obtain s3 where "cancel_children n (mark s a e) (children_list s a) (Some e) = Inr s3"
        "removeChild (finish s3 a) p (CancelCtxC a p) = Inr s'"
        using r by (auto simp: cancelCtx_cancel_eq seq_eq_Inr split: if_splits)
      moreover have "a \<notin> set (held s)" "\<not> (\<exists>d. done_ch s a = Some d \<and> d \<in> set (closed s))"
        using r False by (auto simp: cancelCtx_cancel_eq split: if_splits)
      ultimately show ?thesis using False CancelCtxC removeChild_rel
        by (auto simp: cancelCtx_cancel_eq)
    qed
  qed
next
  case (TimerCtxC a p)
  then have r: "timerCtx_cancel n s a p rfp (Some e) = Inr s'" using assms by simp
  show ?thesis
  proof (cases rfp)
    case False
    then show ?thesis using assms remove_rel_refl by auto
  next
    case True
    from r True have "\<exists>s1 s2. cancelCtx_cancel n s a p False (Some e) = Inr s1 \<and>
        removeChild s1 p (TimerCtxC a p) = Inr s2 \<and>
        (if a \<in> set (held s2) then Inl Deadlock else Inr (clear_timer s2 a)) = Inr s'"
      by (simp add: timerCtx_cancel_eq seq_eq_Inr)
    then obtain s1 s2 where s1: "cancelCtx_cancel n s a p False (Some e) = Inr s1"
      and s2: "removeChild s1 p (TimerCtxC a p) = Inr s2"
      and s': "a \<notin> set (held s2)" "s' = clear_timer s2 a"
      by (auto split: if_splits)
    have rel: "remove_rel c s1 s2" using s2 TimerCtxC removeChild_rel by auto
    then have "held s1 = held s2" by (simp add: remove_rel_def)
    then have "timerCtx_cancel n s a p False (Some e) = Inr (clear_timer s1 a)"
      using s1 s' by (simp add: timerCtx_cancel_eq)
    then show ?thesis using TimerCtxC rel s' remove_rel_clear_timer by auto
  qed
qed

lemma cancel_rfp_total:
  assumes "cancel n s c False (Some e) = Inr s1" and "held s = []"
  shows "\<exists>s'. cancel n s c rfp (Some e) = Inr s'"
proof (cases rfp)
  case False
  then show ?thesis using assms by simp
next
  case True
  have h1: "held s1 = []"
    using fanout_cancel(1)[of n s c False "Some e"] assms
    by (simp add: fanout_rel_def misc_rel_def)
  show ?thesis
  proof (cases c)
    case (CancelCtxC a p)
    then have r: "cancelCtx_cancel n s a p False (Some e) = Inr s1" using assms by simp
    show ?thesis
    proof (cases "err s a \<noteq> None")
      case True
      then show ?thesis using r CancelCtxC by (auto simp: cancelCtx_cancel_eq split: if_splits)
    next
      case False
      then obtain s3 where s3: "cancel_children n (mark s a e) (children_list s a) (Some e) = Inr s3"
        "s1 = finish s3 a"
        using r by (auto simp: cancelCtx_cancel_eq seq_eq_Inr split: if_splits)
      have pre: "a \<notin> set (held s)" "\<not> (\<exists>d. done_ch s a = Some d \<and> d \<in> set (closed s))"
        using r False by (auto simp: cancelCtx_cancel_eq split: if_splits)
      obtain s' where "removeChild (finish s3 a) p (CancelCtxC a p) = Inr s'"
        using removeChild_total[of "finish s3 a"] h1 s3(2) by auto
      then show ?thesis using False CancelCtxC pre s3 True
        by (auto simp: cancelCtx_cancel_eq)
    qed
  next
    case (TimerCtxC a p)
    then have r: "timerCtx_cancel n s a p False (Some e) = Inr s1" using assms by simp
    then obtain s0 where s0: "cancelCtx_cancel n s a p False (Some e) = Inr s0"
      by (auto simp: timerCtx_cancel_eq seq_eq_Inr split: if_splits)
    have h0: "held s0 = []"
      using fanout_cancel(2)[of n s a p False "Some e"] s0 assms(2)
      by (simp add: fanout_rel_def misc_rel_def)
    then obtain s2 where s2: "removeChild s0 p (TimerCtxC a p) = Inr s2"
      using removeChild_total by blast
    then have "held s2 = []" using removeChild_rel[OF s2] h0 by (simp add: remove_rel_def)
    then show ?thesis using s0 s2 TimerCtxC True by (simp add: timerCtx_cancel_eq)
  qed
qed

lemma cancel_total:
  assumes "tree_inv s" "held s = []" "canceler_addr c < next_addr s"
    "next_addr s \<le> n + canceler_addr c + 1"
  shows "\<exists>s1 s'. cancel n s c False (Some e) = Inr s1 \<and> cancel n s c rfp (Some e) = Inr s' \<and>
      fanout_rel e s s1 \<and> remove_rel c s1 s' \<and> err s1 (canceler_addr c) \<noteq> None"
proof -
  obtain s1 where s1: "cancel n s c False (Some e) = Inr s1"
    using fanout_total(1)[of False "Some e" s c n] assms by auto
  obtain s' where s': "cancel n s c rfp (Some e) = Inr s'"
    using cancel_rfp_total[OF s1 assms(2)] by blast
  obtain s1' where "cancel n s c False (Some e) = Inr s1'" "remove_rel c s1' s'"
    using cancel_rfp_partial[OF s'] by blast
  then have "remove_rel c s1 s'" using s1 by simp
  then show ?thesis using s1 s' fanout_cancel(1)[of n s c False "Some e"] by auto
qed

lemma Err_canceler_ctx:
  "held s = [] \<Longrightarrow> Err s (canceler_ctx c) = Inr (err s (canceler_addr c))"
  by (cases c) (simp_all add: cancelCtx_Err_def lock_def)

lemma fanout_rel_closed:
  assumes "fanout_rel e s s'" "err s x = None" "err s' x \<noteq> None" "closedchan \<in> set (closed s)"
  shows "err s' x = Some e \<and> children s' x = None \<and>
    (\<exists>d. done_ch s' x = Some d \<and> d \<in> set (closed s')) \<and>
    (\<forall>c \<in> set (children_list s x). err s' (canceler_addr c) \<noteq> None)"
proof -
  have a1: "err s' x = err s x \<or> (err s x = None \<and> err s' x = Some e)"
    and c1: "children s' x = None \<and>
          (\<exists>d. done_ch s' x = Some d \<and> (d = closedchan \<or> d \<in> set (closed s'))) \<and>
          (\<forall>c \<in> set (children_list s x). err s' (canceler_addr c) \<noteq> None)"
    and d1: "set (closed s) \<subseteq> set (closed s')"
    using assms unfolding fanout_rel_def err_rel_def by blast+
  show ?thesis using a1 c1 d1 assms by auto
qed

lemma done_rel_refl: "done_rel s s"
  by (simp add: done_rel_def)

lemma done_rel_trans: "done_rel s s1 \<Longrightarrow> done_rel s1 s2 \<Longrightarrow> done_rel s s2"
  unfolding done_rel_def by (metis option.distinct(1))

lemma done_rel_mark: "done_rel s (mark s a e)"
  by (auto simp: done_rel_def mark_def split: option.splits)

lemma done_rel_eq: "done_ch s' = done_ch s \<Longrightarrow> done_rel s s'"
  by (simp add: done_rel_def)

lemma done_cancel:
  "\<forall>s'. cancel n s c rfp eo = Inr s' \<longrightarrow> rfp = False \<longrightarrow> done_rel s s'"
  "\<forall>s'. cancelCtx_cancel n s a p rfp eo = Inr s' \<longrightarrow> rfp = False \<longrightarrow> done_rel s s'"
  "\<forall>s'. timerCtx_cancel n s a p rfp eo = Inr s' \<longrightarrow> rfp = False \<longrightarrow> done_rel s s'"
  "\<forall>s'. cancel_children n s cs eo = Inr s' \<longrightarrow> done_rel s s'"
proof (induction n s c rfp eo and n s a p rfp eo and n s a p rfp eo and n s cs eo
    rule: cancel_cancelCtx_cancel_timerCtx_cancel_cancel_children.induct)
  case (1 n s a p rfp e)
  then show ?case by simp
next
  case (2 n s a p rfp e)
  then show ?case by simp
next
  case (3 n s a p rfp eo)
  show ?case
  proof (intro allI impI)
    fix s'
    assume r: "cancelCtx_cancel n s a p rfp eo = Inr s'" and f: "rfp = False"
    then obtain e where e: "eo = Some e"
      by (cases eo) (simp_all add: cancelCtx_cancel.simps)
    show "done_rel s s'"
    proof (cases "err s a \<noteq> None")
      case True
      then have "s' = s\<lparr>calls := calls s @ [(a, held s)]\<rparr>"
        using r f e by (simp add: cancelCtx_cancel_eq split: if_splits)
      then show ?thesis by (simp add: done_rel_def)
    next
      case False
      then obtain s3 where c: "cancel_children n (mark s a e) (children_list s a) (Some e) = Inr s3"
        and s': "s' = finish s3 a"
        using r f e by (auto simp: cancelCtx_cancel_eq seq_eq_Inr split: if_splits)
      have cl: "children_list (mark s a e) a = children_list s a"
        by (simp add: mark_def children_list_def)
      have "\<not> err s a \<noteq> None" "eo \<noteq> None"
        using False e by simp_all
      from 3[OF this(2) this(1), of "mark s a e"] e c cl
      have ih: "done_rel (mark s a e) s3" by auto
      have "done_rel s3 s'" using s' by (simp add: done_rel_def finish_def unlock_def)
      then show ?thesis using done_rel_mark ih done_rel_trans by blast
    qed
  qed
next
  case (4 n s a p rfp eo)
  show ?case
  proof (intro allI impI)
    fix s'
    assume r: "timerCtx_cancel n s a p rfp eo = Inr s'" and f: "rfp = False"
    then obtain s1 where c: "cancelCtx_cancel n s a p False eo = Inr s1"
      and s': "s' = clear_timer s1 a"
      by (auto simp: timerCtx_cancel_eq seq_eq_Inr split: if_splits)
    from 4 c have ih: "done_rel s s1" by auto
    have "done_rel s1 s'"
      using s' by (simp add: done_rel_def clear_timer_def split: option.splits)
    then show "done_rel s s'" using ih done_rel_trans by blast
  qed
next
  case (5 n s e)
  then show ?case by (simp add: done_rel_refl)
next
  case (6 s ch cs e)
  then show ?case by simp
next
  case (7 n s ch cs eo)
  show ?case
  proof (intro allI impI)
    fix s'
    assume r: "cancel_children (Suc n) s (ch # cs) eo = Inr s'"
    then obtain s1 where c1: "cancel n s ch False eo = Inr s1"
      and c2: "cancel_children (Suc n) s1 cs eo = Inr s'"
      by (auto simp: seq_eq_Inr)
    from 7(1) c1 have ih1: "done_rel s s1" by auto
    from 7(2)[of s1] c2 have ih2: "done_rel s1 s'" by auto
    show "done_rel s s'" using ih1 ih2 done_rel_trans by blast
  qed
qed

text \<open>What the first cancel does to the channel of a node: the channel that \<^verbatim>\<open>Done\<close>
  handed out is the one closed, and a node without a channel gets the shared closed one.\<close>

lemma fanout_done:
  assumes c: "cancel n s c False (Some e) = Inr s1" and r: "fanout_rel e s s1"
    and x: "err s x = None" "err s1 x \<noteq> None" and cc: "closedchan \<in> set (closed s)"
  shows "done_ch s1 x = Some (case done_ch s x of None \<Rightarrow> closedchan | Some d \<Rightarrow> d)"
    and "\<forall>d. done_ch s x = Some d \<longrightarrow> d \<in> set (closed s1)"
proof -
  have dr: "done_rel s s1" using done_cancel(1) c by blast
  have er: "\<exists>d. done_ch s1 x = Some d \<and> (d = closedchan \<or> d \<in> set (closed s1))"
    "done_ch s x \<noteq> None \<longrightarrow> done_ch s1 x = done_ch s x"
    "set (closed s) \<subseteq> set (closed s1)"
    using r x unfolding fanout_rel_def err_rel_def by blast+
  have d: "done_ch s1 x = done_ch s x \<or> (done_ch s x = None \<and> done_ch s1 x = Some closedchan)"
    using dr by (simp add: done_rel_def)
  show "done_ch s1 x = Some (case done_ch s x of None \<Rightarrow> closedchan | Some d \<Rightarrow> d)"
    using er(1) d by (cases "done_ch s x") auto
  show "\<forall>d. done_ch s x = Some d \<longrightarrow> d \<in> set (closed s1)"
    using er cc by auto
qed

text \<open>
  Claim C2. Take a chain parent, child, grandchild in which the child is registered in the
  children of the parent and the grandchild in those of the child, none of the three being
  cancelled yet. Then \<open>cancel\<close> on the parent, with either flag and the error \<open>e\<close>,
  returns, and in the store it returns \<^verbatim>\<open>Err\<close> of the parent, of the child and of the
  grandchild is \<open>e\<close> and the channels of the child and of the grandchild are closed: the
  done field of each still holds the channel that \<^verbatim>\<open>Done\<close> had handed out, which was
  open before and is closed now, and a done field that was nil holds the shared closed
  channel. The store is one the package builds (\<open>tree_inv\<close>), no mutex is held at the call,
  and the recursion budget covers the addresses below the parent.
\<close>

theorem cancel_propagates:
  assumes "tree_inv s" and "held s = []"
    and "canceler_addr parent < next_addr s"
    and "next_addr s \<le> n + canceler_addr parent + 1"
    and "err s (canceler_addr parent) = None"
    and "child \<in> set (children_list s (canceler_addr parent))"
    and "err s (canceler_addr child) = None"
    and "grandchild \<in> set (children_list s (canceler_addr child))"
    and "err s (canceler_addr grandchild) = None"
  shows "\<exists>s'. cancel n s parent rfp (Some e) = Inr s' \<and>
    Err s' (canceler_ctx parent) = Inr (Some e) \<and>
    Err s' (canceler_ctx child) = Inr (Some e) \<and>
    Err s' (canceler_ctx grandchild) = Inr (Some e) \<and>
    (\<exists>d. done_ch s' (canceler_addr child) = Some d \<and> d \<in> set (closed s')) \<and>
    (\<exists>d. done_ch s' (canceler_addr grandchild) = Some d \<and> d \<in> set (closed s')) \<and>
    done_ch s' (canceler_addr child) =
      Some (case done_ch s (canceler_addr child) of None \<Rightarrow> closedchan | Some d \<Rightarrow> d) \<and>
    done_ch s' (canceler_addr grandchild) =
      Some (case done_ch s (canceler_addr grandchild) of None \<Rightarrow> closedchan | Some d \<Rightarrow> d) \<and>
    (\<forall>d. done_ch s (canceler_addr child) = Some d \<longrightarrow>
         d \<notin> set (closed s) \<and> d \<in> set (closed s')) \<and>
    (\<forall>d. done_ch s (canceler_addr grandchild) = Some d \<longrightarrow>
         d \<notin> set (closed s) \<and> d \<in> set (closed s'))"
proof -
  obtain s1 s' where s1: "cancel n s parent False (Some e) = Inr s1"
    and s': "cancel n s parent rfp (Some e) = Inr s'"
    and rel: "fanout_rel e s s1" and rem: "remove_rel parent s1 s'"
    and pe: "err s1 (canceler_addr parent) \<noteq> None"
    using cancel_total[OF assms(1-4), of e rfp] by blast
  have cc: "closedchan \<in> set (closed s)" using assms(1) by (simp add: tree_inv_def)
  have p: "err s1 (canceler_addr parent) = Some e"
    "\<forall>c \<in> set (children_list s (canceler_addr parent)). err s1 (canceler_addr c) \<noteq> None"
    using fanout_rel_closed[OF rel assms(5) pe cc] by simp_all
  then have ce: "err s1 (canceler_addr child) \<noteq> None" using assms(6) by blast
  have c: "err s1 (canceler_addr child) = Some e"
    "\<exists>d. done_ch s1 (canceler_addr child) = Some d \<and> d \<in> set (closed s1)"
    "\<forall>c \<in> set (children_list s (canceler_addr child)). err s1 (canceler_addr c) \<noteq> None"
    using fanout_rel_closed[OF rel assms(7) ce cc] by simp_all
  then have ge: "err s1 (canceler_addr grandchild) \<noteq> None" using assms(8) by blast
  have g: "err s1 (canceler_addr grandchild) = Some e"
    "\<exists>d. done_ch s1 (canceler_addr grandchild) = Some d \<and> d \<in> set (closed s1)"
    using fanout_rel_closed[OF rel assms(9) ge cc] by simp_all
  have same: "err s' = err s1" "closed s' = closed s1" "held s' = held s1"
    and dn: "\<And>x. done_ch s' x = done_ch s1 x \<or> done_ch s1 x = None"
    using rem by (auto simp: remove_rel_def)
  have h: "held s' = []"
    using rel same assms(2) by (simp add: fanout_rel_def misc_rel_def)
  have ca: "canceler_addr child < next_addr s"
    using tree_inv_children[OF assms(1,3,6)] by simp
  then have ga: "canceler_addr grandchild < next_addr s"
    using tree_inv_children[OF assms(1) _ assms(8)] by simp
  have k1: "\<exists>d. done_ch s' (canceler_addr child) = Some d \<and> d \<in> set (closed s')"
    using c(2) dn[of "canceler_addr child"] same by auto
  have k2: "\<exists>d. done_ch s' (canceler_addr grandchild) = Some d \<and> d \<in> set (closed s')"
    using g(2) dn[of "canceler_addr grandchild"] same by auto
  have k3: "done_ch s' (canceler_addr child) =
      Some (case done_ch s (canceler_addr child) of None \<Rightarrow> closedchan | Some d \<Rightarrow> d)"
    using fanout_done(1)[OF s1 rel assms(7) ce cc] dn[of "canceler_addr child"] by auto
  have k4: "done_ch s' (canceler_addr grandchild) =
      Some (case done_ch s (canceler_addr grandchild) of None \<Rightarrow> closedchan | Some d \<Rightarrow> d)"
    using fanout_done(1)[OF s1 rel assms(9) ge cc] dn[of "canceler_addr grandchild"] by auto
  have k5: "\<forall>d. done_ch s (canceler_addr child) = Some d \<longrightarrow>
         d \<notin> set (closed s) \<and> d \<in> set (closed s')"
    using fanout_done(2)[OF s1 rel assms(7) ce cc] tree_inv_open[OF assms(1) ca assms(7)] same
    by auto
  have k6: "\<forall>d. done_ch s (canceler_addr grandchild) = Some d \<longrightarrow>
         d \<notin> set (closed s) \<and> d \<in> set (closed s')"
    using fanout_done(2)[OF s1 rel assms(9) ge cc] tree_inv_open[OF assms(1) ga assms(9)] same
    by auto
  have e1: "Err s' (canceler_ctx parent) = Inr (Some e)"
    "Err s' (canceler_ctx child) = Inr (Some e)"
    "Err s' (canceler_ctx grandchild) = Inr (Some e)"
    using p(1) c(1) g(1) same Err_canceler_ctx[OF h] by auto
  from s' e1 k1 k2 k3 k4 k5 k6 show ?thesis by (intro exI [of _ s'] conjI) assumption+
qed

lemma chain_state_facts:
  "held chain_state = []" "next_addr chain_state = 3"
  "children_list chain_state 0 = [chain_B]" "children_list chain_state 1 = [chain_C]"
  "err chain_state 0 = None" "err chain_state 1 = None" "err chain_state 2 = None"
  by (simp_all add: chain_state_def init_state_def children_list_def)

lemma chain_state_inv: "tree_inv chain_state"
  by (simp add: tree_inv_def chain_state_def init_state_def children_list_def closedchan_def
      chain_A_def chain_B_def chain_C_def numeral_3_eq_3 less_Suc_eq)

lemma chain_state_built:
  "WithCancel 0 init_state (Some Background) =
     Inr ((canceler_ctx chain_A, CancelFunc chain_A True Canceled), chain_state1)"
  "WithCancel 0 chain_state1 (Some (canceler_ctx chain_A)) =
     Inr ((canceler_ctx chain_B, CancelFunc chain_B True Canceled), chain_state2)"
  "WithCancel 0 chain_state2 (Some (canceler_ctx chain_B)) =
     Inr ((canceler_ctx chain_C, CancelFunc chain_C True Canceled), chain_state)"
    apply (simp_all add: WithCancel_def newCancelCtx_def propagateCancel_def Background_def
      background_def init_state_def chain_A_def chain_B_def chain_C_def chain_state_def
      chain_state1_def chain_state2_def cancelCtx_Done_eq parentCancelCtx_eq closedchan_def
      lock_def unlock_def fun_upd_idem_iff fun_upd_twist)
  done

theorem cancel_propagates_witness:
  "tree_inv chain_state \<and> held chain_state = [] \<and>
   err chain_state 0 = None \<and> err chain_state 1 = None \<and> err chain_state 2 = None \<and>
   children_list chain_state 0 = [chain_B] \<and> children_list chain_state 1 = [chain_C] \<and>
   done_ch chain_state 1 = Some 2 \<and> done_ch chain_state 2 = None \<and>
   (\<exists>s'. cancel 2 chain_state chain_A True (Some Canceled) = Inr s' \<and>
     Err s' (canceler_ctx chain_A) = Inr (Some Canceled) \<and>
     Err s' (canceler_ctx chain_B) = Inr (Some Canceled) \<and>
     Err s' (canceler_ctx chain_C) = Inr (Some Canceled) \<and>
     done_ch s' 1 = Some 2 \<and> 2 \<notin> set (closed chain_state) \<and> 2 \<in> set (closed s') \<and>
     done_ch s' 2 = Some closedchan)"
proof -
  have d: "done_ch chain_state 1 = Some 2" "done_ch chain_state 2 = None"
    by (simp_all add: chain_state_def init_state_def)
  have a: "canceler_addr chain_A = 0" "canceler_addr chain_B = 1" "canceler_addr chain_C = 2"
    by (simp_all add: chain_A_def chain_B_def chain_C_def)
  have pre: "canceler_addr chain_A < next_addr chain_state"
    "next_addr chain_state \<le> 2 + canceler_addr chain_A + 1"
    "err chain_state (canceler_addr chain_A) = None"
    "chain_B \<in> set (children_list chain_state (canceler_addr chain_A))"
    "err chain_state (canceler_addr chain_B) = None"
    "chain_C \<in> set (children_list chain_state (canceler_addr chain_B))"
    "err chain_state (canceler_addr chain_C) = None"
    using chain_state_facts by (simp_all add: a)
  note T = cancel_propagates [OF chain_state_inv chain_state_facts(1) pre, of True Canceled,
      unfolded a d option.case]
  then obtain s' where s': "cancel 2 chain_state chain_A True (Some Canceled) = Inr s'"
    "Err s' (canceler_ctx chain_A) = Inr (Some Canceled)"
    "Err s' (canceler_ctx chain_B) = Inr (Some Canceled)"
    "Err s' (canceler_ctx chain_C) = Inr (Some Canceled)"
    "done_ch s' 1 = Some 2" "done_ch s' 2 = Some closedchan"
    "\<forall>d. Some 2 = Some d \<longrightarrow> d \<notin> set (closed chain_state) \<and> d \<in> set (closed s')"
    by (elim exE conjE)
  have c: "2 \<notin> set (closed chain_state)" "2 \<in> set (closed s')"
    using s'(7) by simp_all
  have R: "\<exists>s'. cancel 2 chain_state chain_A True (Some Canceled) = Inr s' \<and>
     Err s' (canceler_ctx chain_A) = Inr (Some Canceled) \<and>
     Err s' (canceler_ctx chain_B) = Inr (Some Canceled) \<and>
     Err s' (canceler_ctx chain_C) = Inr (Some Canceled) \<and>
     done_ch s' 1 = Some 2 \<and> 2 \<notin> set (closed chain_state) \<and> 2 \<in> set (closed s') \<and>
     done_ch s' 2 = Some closedchan"
    using s'(1-6) c by (intro exI [of _ s'] conjI) assumption+
  from chain_state_inv chain_state_facts(1,5,6,7,3,4) d R show ?thesis
    by (intro conjI) assumption+
qed

lemma cancel_settled:
  assumes h: "held s = []" and e0: "err s (canceler_addr c) = Some e0"
    and d: "done_ch s (canceler_addr c) = Some d" and ch: "children s (canceler_addr c) = None"
  shows "\<exists>s'. cancel n s c rfp (Some e) = Inr s' \<and> err s' = err s \<and> closed s' = closed s \<and>
    done_ch s' (canceler_addr c) = Some d \<and> children s' (canceler_addr c) = None \<and>
    held s' = [] \<and> calls s' = calls s @ [(canceler_addr c, [])]"
proof (cases c)
  case (CancelCtxC a p)
  then show ?thesis using assms by (simp add: cancelCtx_cancel_eq)
next
  case (TimerCtxC a p)
  let ?s1 = "s\<lparr>calls := calls s @ [(a, [])]\<rparr>"
  have s1: "cancelCtx_cancel n s a p False (Some e) = Inr ?s1"
    using TimerCtxC assms by (simp add: cancelCtx_cancel_eq)
  have "\<exists>s2. (if rfp then removeChild ?s1 p (TimerCtxC a p) else Inr ?s1) = Inr s2 \<and>
      remove_rel c ?s1 s2"
  proof (cases rfp)
    case True
    obtain s2 where "removeChild ?s1 p (TimerCtxC a p) = Inr s2"
      using removeChild_total[of ?s1] h by auto
    then show ?thesis using True removeChild_rel TimerCtxC by auto
  next
    case False
    then show ?thesis by (simp add: remove_rel_refl)
  qed
  then obtain s2 where s2: "(if rfp then removeChild ?s1 p (TimerCtxC a p) else Inr ?s1) = Inr s2"
    and rel: "remove_rel c ?s1 s2" by blast
  have f: "err s2 = err s" "closed s2 = closed s" "held s2 = []" "calls s2 = calls s @ [(a, [])]"
    "done_ch s2 a = done_ch s a \<or> done_ch s a = None"
    "children s2 a = children s a \<or> children s2 a = map_option (removeAll c) (children s a)"
    using rel h by (auto simp: remove_rel_def)
  have r: "timerCtx_cancel n s a p rfp (Some e) = Inr (clear_timer s2 a)"
    using s1 s2 f(3) by (simp add: timerCtx_cancel_eq)
  have ct: "err (clear_timer s2 a) = err s2" "closed (clear_timer s2 a) = closed s2"
    "done_ch (clear_timer s2 a) = done_ch s2" "children (clear_timer s2 a) = children s2"
    "held (clear_timer s2 a) = held s2" "calls (clear_timer s2 a) = calls s2"
    by (simp_all add: clear_timer_def split: option.splits)
  show ?thesis using r f ct TimerCtxC d ch by auto
qed

lemma cancel_again_settled:
  assumes "held s = []" and "err s (canceler_addr c) = Some e0"
    and "done_ch s (canceler_addr c) = Some d" and "children s (canceler_addr c) = None"
  shows "\<exists>s'. cancel_again n s c later = Inr s' \<and> err s' = err s \<and> closed s' = closed s \<and>
    done_ch s' (canceler_addr c) = Some d \<and> children s' (canceler_addr c) = None \<and>
    held s' = [] \<and> calls s' = calls s @ map (\<lambda>x. (canceler_addr c, [])) later"
  using assms
proof (induction later arbitrary: s)
  case Nil
  then show ?case by simp
next
  case (Cons x later)
  obtain s1 where s1: "cancel n s c (fst x) (Some (snd x)) = Inr s1" "err s1 = err s"
    "closed s1 = closed s" "done_ch s1 (canceler_addr c) = Some d"
    "children s1 (canceler_addr c) = None" "held s1 = []"
    "calls s1 = calls s @ [(canceler_addr c, [])]"
    using cancel_settled[OF Cons.prems, of n "fst x" "snd x"] by blast
  have "err s1 (canceler_addr c) = Some e0" using s1(2) Cons.prems(2) by simp
  from Cons.IH[OF s1(6) this s1(4) s1(5)] s1 show ?case by auto
qed

text \<open>
  Claim C1. The first call of \<open>cancel\<close> on a canceler that is not yet cancelled returns,
  sets its error, closes its channel and leaves its children nil: the done field still
  holds the channel that \<^verbatim>\<open>Done\<close> had handed out, which was open before and is closed
  now, and a done field that was nil holds the shared closed channel. Every series of later
  calls on the same canceler, each with any flag and any error, returns and changes no
  error in the store, closes no channel, and leaves the channel and the children of the
  canceler as they were, so that \<^verbatim>\<open>Err\<close> still reports the error of the first call.
\<close>

theorem cancel_idempotent:
  assumes "tree_inv s" and "held s = []"
    and "canceler_addr c < next_addr s"
    and "next_addr s \<le> n + canceler_addr c + 1"
    and "err s (canceler_addr c) = None"
  shows "\<exists>s1. cancel n s c rfp (Some e) = Inr s1 \<and>
    err s1 (canceler_addr c) = Some e \<and>
    (\<exists>d. done_ch s1 (canceler_addr c) = Some d \<and> d \<in> set (closed s1)) \<and>
    done_ch s1 (canceler_addr c) =
      Some (case done_ch s (canceler_addr c) of None \<Rightarrow> closedchan | Some d \<Rightarrow> d) \<and>
    (\<forall>d. done_ch s (canceler_addr c) = Some d \<longrightarrow>
         d \<notin> set (closed s) \<and> d \<in> set (closed s1)) \<and>
    children s1 (canceler_addr c) = None \<and>
    (\<forall>later. \<exists>s2. cancel_again n s1 c later = Inr s2 \<and>
       err s2 = err s1 \<and> closed s2 = closed s1 \<and>
       done_ch s2 (canceler_addr c) = done_ch s1 (canceler_addr c) \<and>
       children s2 (canceler_addr c) = children s1 (canceler_addr c) \<and>
       Err s2 (canceler_ctx c) = Inr (Some e))"
proof -
  let ?a = "canceler_addr c"
  obtain s0 s1 where s0: "cancel n s c False (Some e) = Inr s0"
    and s1: "cancel n s c rfp (Some e) = Inr s1"
    and rel: "fanout_rel e s s0" and rem: "remove_rel c s0 s1"
    and pe: "err s0 ?a \<noteq> None"
    using cancel_total[OF assms(1-4), of e rfp] by blast
  have cc: "closedchan \<in> set (closed s)" using assms(1) by (simp add: tree_inv_def)
  have p: "err s0 ?a = Some e" "children s0 ?a = None"
    "\<exists>d. done_ch s0 ?a = Some d \<and> d \<in> set (closed s0)"
    using fanout_rel_closed[OF rel assms(5) pe cc] by simp_all
  have same: "err s1 = err s0" "closed s1 = closed s0" "held s1 = held s0"
    and dn: "done_ch s1 ?a = done_ch s0 ?a \<or> done_ch s0 ?a = None"
    and cn: "children s1 ?a = children s0 ?a \<or>
          children s1 ?a = map_option (removeAll c) (children s0 ?a)"
    using rem by (auto simp: remove_rel_def)
  have h: "held s1 = []"
    using rel same assms(2) by (simp add: fanout_rel_def misc_rel_def)
  obtain d where d: "done_ch s1 ?a = Some d" "d \<in> set (closed s1)"
    using p(3) dn same by auto
  have e1: "err s1 ?a = Some e" using p(1) same by simp
  have c1: "children s1 ?a = None" using p(2) cn by auto
  have d1: "done_ch s1 ?a = Some (case done_ch s ?a of None \<Rightarrow> closedchan | Some d \<Rightarrow> d)"
    using fanout_done(1)[OF s0 rel assms(5) pe cc] dn by auto
  have d2: "\<forall>d. done_ch s ?a = Some d \<longrightarrow> d \<notin> set (closed s) \<and> d \<in> set (closed s1)"
    using fanout_done(2)[OF s0 rel assms(5) pe cc] tree_inv_open[OF assms(1,3,5)] same
    by auto
  have d3: "\<exists>d. done_ch s1 ?a = Some d \<and> d \<in> set (closed s1)" using d by blast
  have L: "\<forall>later. \<exists>s2. cancel_again n s1 c later = Inr s2 \<and>
       err s2 = err s1 \<and> closed s2 = closed s1 \<and>
       done_ch s2 ?a = done_ch s1 ?a \<and> children s2 ?a = children s1 ?a \<and>
       Err s2 (canceler_ctx c) = Inr (Some e)"
  proof
    fix later
    obtain s2 where s2: "cancel_again n s1 c later = Inr s2" "err s2 = err s1"
      "closed s2 = closed s1" "done_ch s2 ?a = Some d" "children s2 ?a = None" "held s2 = []"
      using cancel_again_settled[OF h e1 d(1) c1, of n later] by blast
    then show "\<exists>s2. cancel_again n s1 c later = Inr s2 \<and>
       err s2 = err s1 \<and> closed s2 = closed s1 \<and>
       done_ch s2 ?a = done_ch s1 ?a \<and> children s2 ?a = children s1 ?a \<and>
       Err s2 (canceler_ctx c) = Inr (Some e)"
      using d(1) c1 e1 Err_canceler_ctx[OF s2(6), of c] by auto
  qed
  from s1 e1 d3 d1 d2 c1 L show ?thesis by (intro exI [of _ s1] conjI) assumption+
qed

theorem cancel_idempotent_witness:
  "tree_inv chain_state \<and> held chain_state = [] \<and> err chain_state 1 = None \<and>
   done_ch chain_state 1 = Some 2 \<and>
   (\<exists>s1. cancel 1 chain_state chain_B True (Some Canceled) = Inr s1 \<and>
      err s1 1 = Some Canceled \<and>
      done_ch s1 1 = Some 2 \<and> 2 \<notin> set (closed chain_state) \<and> 2 \<in> set (closed s1) \<and>
      children s1 1 = None \<and>
      (\<exists>s2. cancel_again 1 s1 chain_B [(True, DeadlineExceeded), (False, Canceled)] = Inr s2 \<and>
         err s2 = err s1 \<and> closed s2 = closed s1 \<and> done_ch s2 1 = done_ch s1 1 \<and>
         children s2 1 = children s1 1 \<and>
         Err s2 (canceler_ctx chain_B) = Inr (Some Canceled)))"
proof -
  have a: "canceler_addr chain_B = 1" by (simp add: chain_B_def)
  have dc: "done_ch chain_state 1 = Some 2" by (simp add: chain_state_def init_state_def)
  have pre: "canceler_addr chain_B < next_addr chain_state"
    "next_addr chain_state \<le> 1 + canceler_addr chain_B + 1"
    "err chain_state (canceler_addr chain_B) = None"
    using chain_state_facts by (simp_all add: a)
  note T = cancel_idempotent [OF chain_state_inv chain_state_facts(1) pre, of True Canceled,
      unfolded a dc option.case]
  then obtain s1 where s1: "cancel 1 chain_state chain_B True (Some Canceled) = Inr s1"
    "err s1 1 = Some Canceled" "done_ch s1 1 = Some 2"
    "\<forall>d. Some 2 = Some d \<longrightarrow> d \<notin> set (closed chain_state) \<and> d \<in> set (closed s1)"
    "children s1 1 = None"
    "\<forall>later. \<exists>s2. cancel_again 1 s1 chain_B later = Inr s2 \<and>
       err s2 = err s1 \<and> closed s2 = closed s1 \<and>
       done_ch s2 1 = done_ch s1 1 \<and>
       children s2 1 = children s1 1 \<and>
       Err s2 (canceler_ctx chain_B) = Inr (Some Canceled)"
    by (elim exE conjE)
  have c: "2 \<notin> set (closed chain_state)" "2 \<in> set (closed s1)"
    using s1(4) by simp_all
  have L: "\<exists>s2. cancel_again 1 s1 chain_B [(True, DeadlineExceeded), (False, Canceled)] = Inr s2 \<and>
         err s2 = err s1 \<and> closed s2 = closed s1 \<and> done_ch s2 1 = done_ch s1 1 \<and>
         children s2 1 = children s1 1 \<and>
         Err s2 (canceler_ctx chain_B) = Inr (Some Canceled)"
    using s1(6) by (elim allE)
  have R: "\<exists>s1. cancel 1 chain_state chain_B True (Some Canceled) = Inr s1 \<and>
      err s1 1 = Some Canceled \<and>
      done_ch s1 1 = Some 2 \<and> 2 \<notin> set (closed chain_state) \<and> 2 \<in> set (closed s1) \<and>
      children s1 1 = None \<and>
      (\<exists>s2. cancel_again 1 s1 chain_B [(True, DeadlineExceeded), (False, Canceled)] = Inr s2 \<and>
         err s2 = err s1 \<and> closed s2 = closed s1 \<and> done_ch s2 1 = done_ch s1 1 \<and>
         children s2 1 = children s1 1 \<and>
         Err s2 (canceler_ctx chain_B) = Inr (Some Canceled))"
    using s1(1-3) c s1(5) L by (intro exI [of _ s1]) (intro conjI; assumption)
  from chain_state_inv chain_state_facts(1,6) dc R show ?thesis
    by (intro conjI) assumption+
qed

lemma filter_deeper:
  assumes "\<forall>x \<in> set l. \<exists>H'. snd x = H' @ a # K"
  shows "filter (\<lambda>x. snd x = K) l = []"
proof -
  have "\<And>x. x \<in> set l \<Longrightarrow> snd x \<noteq> K"
  proof
    fix x assume "x \<in> set l" "snd x = K"
    then obtain H' where "K = H' @ a # K" using assms by metis
    then have "length K = length (H' @ a # K)" by simp
    then show False by simp
  qed
  then show ?thesis by (simp add: filter_empty_conv)
qed

lemma calls_log:
  "\<forall>s' e. cancel n s c rfp eo = Inr s' \<longrightarrow> rfp = False \<longrightarrow> eo = Some e \<longrightarrow>
      (\<exists>l. calls s' = calls s @ (canceler_addr c, held s) # l \<and>
        (\<forall>x \<in> set l. \<exists>H'. snd x = H' @ canceler_addr c # held s) \<and>
        (err s (canceler_addr c) = None \<longrightarrow>
           map fst (filter (\<lambda>x. snd x = canceler_addr c # held s) l) =
           map canceler_addr (children_list s (canceler_addr c))))"
  "\<forall>s' e. cancelCtx_cancel n s a p rfp eo = Inr s' \<longrightarrow> rfp = False \<longrightarrow> eo = Some e \<longrightarrow>
      (\<exists>l. calls s' = calls s @ (a, held s) # l \<and>
        (\<forall>x \<in> set l. \<exists>H'. snd x = H' @ a # held s) \<and>
        (err s a = None \<longrightarrow>
           map fst (filter (\<lambda>x. snd x = a # held s) l) =
           map canceler_addr (children_list s a)))"
  "\<forall>s' e. timerCtx_cancel n s a p rfp eo = Inr s' \<longrightarrow> rfp = False \<longrightarrow> eo = Some e \<longrightarrow>
      (\<exists>l. calls s' = calls s @ (a, held s) # l \<and>
        (\<forall>x \<in> set l. \<exists>H'. snd x = H' @ a # held s) \<and>
        (err s a = None \<longrightarrow>
           map fst (filter (\<lambda>x. snd x = a # held s) l) =
           map canceler_addr (children_list s a)))"
  "\<forall>s' e. cancel_children n s cs eo = Inr s' \<longrightarrow> eo = Some e \<longrightarrow>
      (\<exists>l. calls s' = calls s @ l \<and>
        (\<forall>x \<in> set l. \<exists>H'. snd x = H' @ held s) \<and>
        map fst (filter (\<lambda>x. snd x = held s) l) = map canceler_addr cs)"
proof (induction n s c rfp eo and n s a p rfp eo and n s a p rfp eo and n s cs eo
    rule: cancel_cancelCtx_cancel_timerCtx_cancel_cancel_children.induct)
  case (1 n s a p rfp e)
  then show ?case by simp
next
  case (2 n s a p rfp e)
  then show ?case by simp
next
  case (3 n s a p rfp eo)
  show ?case
  proof (intro allI impI)
    fix s' e
    assume r: "cancelCtx_cancel n s a p rfp eo = Inr s'" and f: "rfp = False" and e: "eo = Some e"
    show "\<exists>l. calls s' = calls s @ (a, held s) # l \<and>
        (\<forall>x \<in> set l. \<exists>H'. snd x = H' @ a # held s) \<and>
        (err s a = None \<longrightarrow>
           map fst (filter (\<lambda>x. snd x = a # held s) l) =
           map canceler_addr (children_list s a))"
    proof (cases "err s a \<noteq> None")
      case True
      then have "s' = s\<lparr>calls := calls s @ [(a, held s)]\<rparr>"
        using r f e by (simp add: cancelCtx_cancel_eq split: if_splits)
      then show ?thesis using True by auto
    next
      case False
      then obtain s3 where c: "cancel_children n (mark s a e) (children_list s a) (Some e) = Inr s3"
        and s': "s' = finish s3 a"
        using r f e by (auto simp: cancelCtx_cancel_eq seq_eq_Inr split: if_splits)
      have cl: "children_list (mark s a e) a = children_list s a"
        by (simp add: mark_def children_list_def)
      have m: "calls (mark s a e) = calls s @ [(a, held s)]" "held (mark s a e) = a # held s"
        by (simp_all add: mark_def)
      have "\<not> err s a \<noteq> None" "eo \<noteq> None" using False e by simp_all
      from 3[OF this(2) this(1), of "mark s a e"] e c cl m
      obtain l where l: "calls s3 = (calls s @ [(a, held s)]) @ l"
        "\<forall>x \<in> set l. \<exists>H'. snd x = H' @ a # held s"
        "map fst (filter (\<lambda>x. snd x = a # held s) l) = map canceler_addr (children_list s a)"
        by auto
      have "calls s' = calls s3" using s' by (simp add: finish_def unlock_def)
      then show ?thesis using l by auto
    qed
  qed
next
  case (4 n s a p rfp eo)
  show ?case
  proof (intro allI impI)
    fix s' e
    assume r: "timerCtx_cancel n s a p rfp eo = Inr s'" and f: "rfp = False" and e: "eo = Some e"
    then obtain s1 where c: "cancelCtx_cancel n s a p False eo = Inr s1"
      and s': "s' = clear_timer s1 a"
      by (auto simp: timerCtx_cancel_eq seq_eq_Inr split: if_splits)
    have "calls s' = calls s1" using s' by (simp add: clear_timer_def split: option.splits)
    then show "\<exists>l. calls s' = calls s @ (a, held s) # l \<and>
        (\<forall>x \<in> set l. \<exists>H'. snd x = H' @ a # held s) \<and>
        (err s a = None \<longrightarrow>
           map fst (filter (\<lambda>x. snd x = a # held s) l) =
           map canceler_addr (children_list s a))"
      using 4 c e by auto
  qed
next
  case (5 n s e)
  then show ?case by simp
next
  case (6 s ch cs e)
  then show ?case by simp
next
  case (7 n s ch cs eo)
  show ?case
  proof (intro allI impI)
    fix s' e
    assume r: "cancel_children (Suc n) s (ch # cs) eo = Inr s'" and e: "eo = Some e"
    then obtain s1 where c1: "cancel n s ch False eo = Inr s1"
      and c2: "cancel_children (Suc n) s1 cs eo = Inr s'"
      by (auto simp: seq_eq_Inr)
    let ?K = "held s"
    from 7(1) c1 e obtain l1 where l1: "calls s1 = calls s @ (canceler_addr ch, ?K) # l1"
      "\<forall>x \<in> set l1. \<exists>H'. snd x = H' @ canceler_addr ch # ?K"
      by blast
    have "fanout_rel e s s1" using fanout_cancel(1)[of n s ch False eo] c1 e by simp
    then have hs: "held s1 = ?K" by (simp add: fanout_rel_def misc_rel_def)
    from 7(2)[of s1] c2 e hs obtain l2 where l2: "calls s' = calls s1 @ l2"
      "\<forall>x \<in> set l2. \<exists>H'. snd x = H' @ ?K"
      "map fst (filter (\<lambda>x. snd x = ?K) l2) = map canceler_addr cs"
      by auto
    let ?l = "(canceler_addr ch, ?K) # l1 @ l2"
    have a: "calls s' = calls s @ ?l" using l1 l2 by simp
    have b: "\<forall>x \<in> set ?l. \<exists>H'. snd x = H' @ ?K"
    proof
      fix x assume "x \<in> set ?l"
      then consider "x = (canceler_addr ch, ?K)" | "x \<in> set l1" | "x \<in> set l2" by auto
      then show "\<exists>H'. snd x = H' @ ?K"
      proof cases
        case 1 then show ?thesis by simp
      next
        case 2
        then obtain H' where "snd x = H' @ canceler_addr ch # ?K" using l1(2) by blast
        then have "snd x = (H' @ [canceler_addr ch]) @ ?K" by simp
        then show ?thesis by blast
      next
        case 3 then show ?thesis using l2(2) by blast
      qed
    qed
    have "filter (\<lambda>x. snd x = ?K) l1 = []" using filter_deeper[OF l1(2)] .
    then have c: "map fst (filter (\<lambda>x. snd x = ?K) ?l) = map canceler_addr (ch # cs)"
      using l2(3) by simp
    show "\<exists>l. calls s' = calls s @ l \<and> (\<forall>x \<in> set l. \<exists>H'. snd x = H' @ ?K) \<and>
        map fst (filter (\<lambda>x. snd x = ?K) l) = map canceler_addr (ch # cs)"
      using a b c by blast
  qed
qed

text \<open>
  Claim C9, as the code has it. \<open>cancel\<close> on a canceler that is not yet cancelled returns,
  and the log of entries into \<open>cancel\<close> that it appends starts with its own entry, made
  with no mutex held; every later entry was made while the mutex of the canceler was held;
  and the entries made while exactly that mutex was held are those of its children, one
  after the other in the order of the loop. So the mutex of a node is held, not released,
  while \<open>cancel\<close> recurses into each child.
\<close>

theorem children_cancelled_under_lock:
  assumes "tree_inv s" and "held s = []"
    and "canceler_addr c < next_addr s"
    and "next_addr s \<le> n + canceler_addr c + 1"
    and "err s (canceler_addr c) = None"
  shows "\<exists>s' l. cancel n s c rfp (Some e) = Inr s' \<and>
    calls s' = calls s @ (canceler_addr c, []) # l \<and>
    (\<forall>x \<in> set l. canceler_addr c \<in> set (snd x)) \<and>
    map fst (filter (\<lambda>x. snd x = [canceler_addr c]) l) =
      map canceler_addr (children_list s (canceler_addr c))"
proof -
  obtain s1 s' where s1: "cancel n s c False (Some e) = Inr s1"
    and s': "cancel n s c rfp (Some e) = Inr s'"
    and rem: "remove_rel c s1 s'"
    using cancel_total[OF assms(1-4), of e rfp] by blast
  from calls_log(1)[of n s c False "Some e"] s1 assms(2,5)
  obtain l where l: "calls s1 = calls s @ (canceler_addr c, []) # l"
    "\<forall>x \<in> set l. \<exists>H'. snd x = H' @ [canceler_addr c]"
    "map fst (filter (\<lambda>x. snd x = [canceler_addr c]) l) =
      map canceler_addr (children_list s (canceler_addr c))"
    by auto
  have "calls s' = calls s1" using rem by (simp add: remove_rel_def)
  moreover have "\<forall>x \<in> set l. canceler_addr c \<in> set (snd x)"
    using l(2) by fastforce
  ultimately show ?thesis using s' l by auto
qed

theorem children_cancelled_under_lock_witness:
  "tree_inv chain_state \<and> held chain_state = [] \<and> err chain_state 0 = None \<and>
   children_list chain_state 0 = [chain_B] \<and>
   (\<exists>s' l. cancel 2 chain_state chain_A True (Some Canceled) = Inr s' \<and>
      calls s' = calls chain_state @ (0, []) # l \<and>
      map fst (filter (\<lambda>x. snd x = [0]) l) = [1])"
proof -
  have "\<exists>s' l. cancel 2 chain_state chain_A True (Some Canceled) = Inr s' \<and>
    calls s' = calls chain_state @ (canceler_addr chain_A, []) # l \<and>
    (\<forall>x \<in> set l. canceler_addr chain_A \<in> set (snd x)) \<and>
    map fst (filter (\<lambda>x. snd x = [canceler_addr chain_A]) l) =
      map canceler_addr (children_list chain_state (canceler_addr chain_A))"
    using children_cancelled_under_lock [of chain_state chain_A 2 True Canceled]
      chain_state_inv chain_state_facts
    by (simp add: chain_A_def)
  then obtain s' l where "cancel 2 chain_state chain_A True (Some Canceled) = Inr s'"
    "calls s' = calls chain_state @ (canceler_addr chain_A, []) # l"
    "map fst (filter (\<lambda>x. snd x = [canceler_addr chain_A]) l) =
      map canceler_addr (children_list chain_state (canceler_addr chain_A))"
    by blast
  moreover have "canceler_addr chain_A = 0" "canceler_addr chain_B = 1"
    by (simp_all add: chain_A_def chain_B_def)
  ultimately show ?thesis using chain_state_inv chain_state_facts by auto
qed

theorem recursion_lock_free_counterexample:
  "\<exists>s'. cancel 2 chain_state chain_A True (Some Canceled) = Inr s' \<and>
     calls s' = [(0, []), (1, [0]), (2, [1, 0])] \<and>
     \<not> recursion_lock_free chain_state s'"
  by (simp add: numeral_2_eq_2 chain_state_def init_state_def chain_A_def chain_B_def
      chain_C_def cancelCtx_cancel_eq mark_def finish_def unlock_def children_list_def
      closedchan_def removeChild_eq parentCancelCtx_eq Background_def background_def
      recursion_lock_free_def)

lemma cancel_leaf:
  assumes "children_list s a = []" "err s a = None" "a \<notin> set (held s)"
    "\<not> (\<exists>d. done_ch s a = Some d \<and> d \<in> set (closed s))"
  shows "cancelCtx_cancel n s a p False (Some e) = Inr (finish (mark s a e) a)"
  using assms by (simp add: cancelCtx_cancel_eq)

lemma finish_mark_fields:
  "err (finish (mark s a e) a) = (err s)(a := Some e)"
  "children (finish (mark s a e) a) = (children s)(a := None)"
  "done_ch (finish (mark s a e) a) a = (case done_ch s a of None \<Rightarrow> Some closedchan | Some d \<Rightarrow> Some d)"
  "x \<noteq> a \<Longrightarrow> done_ch (finish (mark s a e) a) x = done_ch s x"
  "set (closed (finish (mark s a e) a)) = set (closed s) \<union> (case done_ch s a of None \<Rightarrow> {} | Some d \<Rightarrow> {d})"
  "a \<notin> set (held s) \<Longrightarrow> held (finish (mark s a e) a) = held s"
  "held (finish (mark s a e) a) = held s"
  "deadline (finish (mark s a e) a) = deadline s"
  "timer (finish (mark s a e) a) = timer s"
  "timers (finish (mark s a e) a) = timers s"
  "next_addr (finish (mark s a e) a) = next_addr s"
  "next_chan (finish (mark s a e) a) = next_chan s"
  "next_timer (finish (mark s a e) a) = next_timer s"
  "watchers (finish (mark s a e) a) = watchers s"
  "goroutines (finish (mark s a e) a) = goroutines s"
  "calls (finish (mark s a e) a) = calls s @ [(a, held s)]"
  by (auto simp: finish_def mark_def unlock_def split: option.splits)

lemma parentCancelCtx_after_Done:
  assumes "Done s parent = Inr (Some d, s1)"
  shows "parentCancelCtx s1 parent = Inr (native_parent s1 parent d, s1)"
  using Done_idem[OF assms]
  by (simp add: parentCancelCtx_eq native_parent_eq split: val.splits)

lemma propagateCancel_eq:
  assumes "Done s parent = Inr (dn, s1)"
  shows "propagateCancel n s parent child =
    (case dn of
       None \<Rightarrow> Inr s1
     | Some d \<Rightarrow>
         if d \<in> set (closed s1) then seq (Err s1 parent) (\<lambda>e. cancel n s1 child False e)
         else (case native_parent s1 parent d of
                 Some p \<Rightarrow>
                   if p \<in> set (held s1) then Inl Deadlock
                   else if err s1 p \<noteq> None
                   then seq (cancel n (s1\<lparr>held := p # held s1\<rparr>) child False (err s1 p))
                          (\<lambda>s4. Inr (unlock s4 p))
                   else Inr (register s1 p child)
               | None \<Rightarrow> Inr (spawn_watcher s1 parent child)))"
proof (cases dn)
  case None
  then show ?thesis using assms by (simp add: propagateCancel_def)
next
  case (Some d)
  show ?thesis
    using assms Some parentCancelCtx_after_Done[of s parent d s1]
    by (auto simp: propagateCancel_def lock_def register_def spawn_watcher_def unlock_def
        split: option.splits)
qed

lemma newCancelCtx_eq: "newCancelCtx s = (next_addr s, alloc_with s 0)"
  by (simp add: newCancelCtx_def alloc_with_def Let_def)

lemma alloc_with_deadline:
  "(alloc_with s 0)\<lparr>deadline := (deadline (alloc_with s 0))(next_addr s := d)\<rparr> = alloc_with s d"
  by (simp add: alloc_with_def)

lemma alloc_with_fields [simp]:
  "next_addr (alloc_with s d) = Suc (next_addr s)"
  "done_ch (alloc_with s d) = (done_ch s)(next_addr s := None)"
  "children (alloc_with s d) = (children s)(next_addr s := None)"
  "err (alloc_with s d) = (err s)(next_addr s := None)"
  "timer (alloc_with s d) = (timer s)(next_addr s := None)"
  "deadline (alloc_with s d) = (deadline s)(next_addr s := d)"
  "closed (alloc_with s d) = closed s" "next_chan (alloc_with s d) = next_chan s"
  "timers (alloc_with s d) = timers s" "next_timer (alloc_with s d) = next_timer s"
  "goroutines (alloc_with s d) = goroutines s" "watchers (alloc_with s d) = watchers s"
  "held (alloc_with s d) = held s" "calls (alloc_with s d) = calls s"
  by (simp_all add: alloc_with_def)

lemma cancelCtx_Done_alloc:
  assumes "a < next_addr s" "cancelCtx_Done s a = Inr (dn, s1)"
  shows "cancelCtx_Done (alloc_with s d) a = Inr (dn, alloc_with s1 d)"
proof (cases "done_ch s a")
  case None
  then show ?thesis using assms
    by (auto simp: cancelCtx_Done_eq alloc_with_def fun_upd_twist split: if_splits)
next
  case (Some c)
  then have "s1 = s" "dn = Some c" using assms by (auto simp: cancelCtx_Done_eq)
  then show ?thesis using Some assms(1) by (simp add: cancelCtx_Done_eq)
qed

lemma Done_alloc:
  "allocated s c \<Longrightarrow> Done s c = Inr (dn, s1) \<Longrightarrow>
   Done (alloc_with s d) c = Inr (dn, alloc_with s1 d)"
  by (induction s c rule: Done.induct) (auto simp: cancelCtx_Done_alloc)

lemma Done_next_addr: "Done s c = Inr (dn, s1) \<Longrightarrow> next_addr s1 = next_addr s"
  using Done_rel[of s c dn s1] by (simp add: remove_rel_def)

lemma Err_alloc: "allocated s c \<Longrightarrow> Err (alloc_with s d) c = Err s c"
  by (induction s c rule: Err.induct)
    (auto simp: cancelCtx_Err_def lock_def split: option.splits)


lemma Deadline_alloc: "allocated s c \<Longrightarrow> Deadline (alloc_with s d) c = Deadline s c"
  by (induction s c rule: Deadline.induct) auto

lemma allocated_Value:
  "allocated s c \<Longrightarrow> ptr_lookup c = CancelCtxPtr p \<Longrightarrow> p < next_addr s"
  by (induction c) (auto split: option.splits val.splits if_splits)

lemma allocated_mono: "allocated s c \<Longrightarrow> next_addr s \<le> next_addr s' \<Longrightarrow> allocated s' c"
  by (induction c) (auto split: option.splits val.splits)

lemma native_parent_alloc:
  "allocated s c \<Longrightarrow> native_parent (alloc_with s d) c ch = native_parent s c ch"
  by (auto simp: native_parent_eq split: val.splits dest: allocated_Value)

lemma native_parent_allocated:
  "allocated s c \<Longrightarrow> native_parent s c ch = Some p \<Longrightarrow> p < next_addr s"
  by (auto simp: native_parent_eq split: val.splits if_splits dest: allocated_Value)

lemma cancel_fresh:
  assumes "canceler_addr c = a" "children s a = None" "err s a = None" "done_ch s a = None"
    "timer s a = None" "a \<notin> set (held s)"
  shows "cancel n s c False (Some e) = Inr (finish (mark s a e) a)"
proof -
  have l: "cancelCtx_cancel n s a p False (Some e) = Inr (finish (mark s a e) a)" for p
    using assms by (simp add: cancelCtx_cancel_eq children_list_def)
  have "clear_timer (finish (mark s a e) a) a = finish (mark s a e) a"
    using assms by (simp add: clear_timer_def finish_def mark_def unlock_def)
  moreover have "a \<notin> set (held (finish (mark s a e) a))"
    using assms by (simp add: finish_def mark_def unlock_def)
  ultimately show ?thesis using assms(1) l
    by (cases c) (simp_all add: timerCtx_cancel_eq)
qed

lemma cancel_nil_error:
  "cancel n s c rfp None = Inl (Panic ''context: internal error: missing cancel error'')"
  by (cases c) (simp_all add: cancelCtx_cancel.simps timerCtx_cancel.simps)

lemma Done_fields:
  assumes "Done s c = Inr (dn, s1)"
  shows "err s1 = err s" "children s1 = children s" "closed s1 = closed s" "held s1 = held s"
    "timer s1 = timer s" "timers s1 = timers s" "deadline s1 = deadline s"
    "next_addr s1 = next_addr s" "next_timer s1 = next_timer s" "watchers s1 = watchers s"
    "goroutines s1 = goroutines s" "calls s1 = calls s"
proof -
  have "s1 = s \<or> (\<exists>b. s1 = s\<lparr>next_chan := Suc (next_chan s),
      done_ch := (done_ch s)(b := Some (next_chan s))\<rparr>)"
    using assms
    by (induction s c rule: Done.induct)
      (auto simp: cancelCtx_Done_eq split: option.splits if_splits)
  then show "err s1 = err s" "children s1 = children s" "closed s1 = closed s"
    "held s1 = held s" "timer s1 = timer s" "timers s1 = timers s" "deadline s1 = deadline s"
    "next_addr s1 = next_addr s" "next_timer s1 = next_timer s" "watchers s1 = watchers s"
    "goroutines s1 = goroutines s" "calls s1 = calls s"
    by auto
qed

lemma Done_allocated_node:
  "allocated s c \<Longrightarrow> Done s c = Inr (dn, s1) \<Longrightarrow> next_addr s \<le> x \<Longrightarrow>
   done_ch s1 x = done_ch s x"
  by (induction s c rule: Done.induct)
    (auto simp: cancelCtx_Done_eq split: option.splits if_splits)

lemma propagate_fresh:
  assumes al: "allocated s parent" and ca: "canceler_addr child = next_addr s"
    and D: "Done s parent = Inr (dn, s1)" and nh: "next_addr s \<notin> set (held s)"
  shows "propagateCancel n (alloc_with s d) parent child =
    (case dn of
       None \<Rightarrow> Inr (alloc_with s1 d)
     | Some ch \<Rightarrow>
         if ch \<in> set (closed s1)
         then (case Err s1 parent of
                 Inr (Some e) \<Rightarrow> Inr (finish (mark (alloc_with s1 d) (next_addr s) e) (next_addr s))
               | Inr None \<Rightarrow> Inl (Panic ''context: internal error: missing cancel error'')
               | Inl f \<Rightarrow> Inl f)
         else (case native_parent s1 parent ch of
                 Some p \<Rightarrow>
                   if p \<in> set (held s1) then Inl Deadlock
                   else (case err s1 p of
                           Some e \<Rightarrow>
                             Inr (unlock (finish (mark ((alloc_with s1 d)\<lparr>held := p # held s1\<rparr>)
                                    (next_addr s) e) (next_addr s)) p)
                         | None \<Rightarrow> Inr (register (alloc_with s1 d) p child))
               | None \<Rightarrow> Inr (spawn_watcher (alloc_with s1 d) parent child)))"
proof -
  let ?a = "next_addr s" and ?t = "alloc_with s1 d"
  have Da: "Done (alloc_with s d) parent = Inr (dn, ?t)" using Done_alloc[OF al D] .
  have f: "next_addr s1 = ?a" "held s1 = held s" "done_ch s1 ?a = done_ch s ?a"
    using Done_fields[OF D] Done_allocated_node[OF al D, of ?a] by simp_all
  have al1: "allocated s1 parent" using allocated_mono[OF al] f by simp
  have fresh: "children ?t ?a = None" "err ?t ?a = None" "done_ch ?t ?a = None"
    "timer ?t ?a = None" "?a \<notin> set (held ?t)"
    using f nh by (simp_all add: alloc_with_def)
  have c1: "cancel n ?t child False (Some e) = Inr (finish (mark ?t ?a e) ?a)" for e
    using cancel_fresh[OF ca fresh] .
  have c2: "cancel n (?t\<lparr>held := p # held ?t\<rparr>) child False (Some e) =
      Inr (finish (mark (?t\<lparr>held := p # held ?t\<rparr>) ?a e) ?a)" if "p < ?a" for p e
    using cancel_fresh[OF ca, of "?t\<lparr>held := p # held ?t\<rparr>" n e] fresh that by simp
  have E: "Err ?t parent = Err s1 parent" using Err_alloc[OF al1, of d] f by simp
  have N: "native_parent ?t parent ch = native_parent s1 parent ch" for ch
    using native_parent_alloc[OF al1, of d] by simp
  have Np: "native_parent s1 parent ch = Some p \<Longrightarrow> p < ?a" for ch p
    using native_parent_allocated[OF al1] f by simp
  have pe: "p < ?a \<Longrightarrow> err ?t p = err s1 p" for p
    using f by (simp add: alloc_with_def)
  show ?thesis
  proof (cases dn)
    case None
    then show ?thesis using propagateCancel_eq[OF Da] by simp
  next
    case (Some ch)
    show ?thesis
    proof (cases "ch \<in> set (closed s1)")
      case True
      then show ?thesis
        using propagateCancel_eq[OF Da, of n child] Some E c1 cancel_nil_error
        by (auto split: sum.splits option.splits)
    next
      case False
      show ?thesis
      proof (cases "native_parent s1 parent ch")
        case None
        then show ?thesis
          using propagateCancel_eq[OF Da, of n child] Some False N by simp
      next
        case (Some p)
        then have "p < ?a" using Np by simp
        then show ?thesis
          using propagateCancel_eq[OF Da, of n child] \<open>dn = Some ch\<close> False N Some pe c2[of p]
          by (auto split: option.splits)
      qed
    qed
  qed
qed

lemma WithCancel_eq:
  "WithCancel n s (Some p) =
     seq (propagateCancel n (alloc_with s 0) p (CancelCtxC (next_addr s) p)) (\<lambda>s2.
       Inr ((CancelCtx (next_addr s) p, CancelFunc (CancelCtxC (next_addr s) p) True Canceled), s2))"
  by (simp add: WithCancel_def newCancelCtx_eq)

lemma WithDeadline_eq:
  "WithDeadline n now s (Some p) d =
     (if snd (Deadline s p) \<and> fst (Deadline s p) < d then WithCancel n s (Some p)
      else
        seq (propagateCancel n (alloc_with s d) p (TimerCtxC (next_addr s) p)) (\<lambda>s2.
          if d \<le> now
          then seq (cancel n s2 (TimerCtxC (next_addr s) p) True (Some DeadlineExceeded)) (\<lambda>s3.
                 Inr ((TimerCtx (next_addr s) p,
                       CancelFunc (TimerCtxC (next_addr s) p) False Canceled), s3))
          else if next_addr s \<in> set (held s2) then Inl Deadlock
          else Inr ((TimerCtx (next_addr s) p,
                     CancelFunc (TimerCtxC (next_addr s) p) True Canceled),
                    arm_timer s2 (next_addr s) d (TimerCtxC (next_addr s) p))))"
proof -
  have l: "seq (lock s2 a) (\<lambda>s3.
       Inr (r, unlock (if err s3 a = None
                 then (case AfterFunc s3 d c of (t, s') \<Rightarrow>
                         s'\<lparr>timer := (timer s')(a := Some t)\<rparr>)
                 else s3) a)) =
     (if a \<in> set (held s2) then Inl Deadlock else Inr (r, arm_timer s2 a d c))" for s2 a c r
    by (auto simp: lock_def unlock_def AfterFunc_def arm_timer_def Let_def)
  show ?thesis
    by (cases "Deadline s p")
      (simp add: WithDeadline_def newCancelCtx_eq alloc_with_deadline l Let_def
        del: alloc_with_fields cong: if_cong)
qed

lemma propagateCancel_cases:
  assumes "propagateCancel n s parent child = Inr s'"
  shows "\<exists>dn s1. Done s parent = Inr (dn, s1) \<and>
    ((dn = None \<and> s' = s1) \<or>
     (\<exists>e. Err s1 parent = Inr (Some e) \<and> cancel n s1 child False (Some e) = Inr s') \<or>
     (\<exists>p e s4. p \<notin> set (held s1) \<and> err s1 p = Some e \<and>
        cancel n (s1\<lparr>held := p # held s1\<rparr>) child False (Some e) = Inr s4 \<and>
        s' = unlock s4 p) \<or>
     (\<exists>p. err s1 p = None \<and> p \<notin> set (held s1) \<and> s' = register s1 p child) \<or>
     s' = spawn_watcher s1 parent child)"
proof -
  obtain dn s1 where D: "Done s parent = Inr (dn, s1)"
    using assms by (cases "Done s parent") (auto simp: propagateCancel_def)
  show ?thesis
  proof (cases dn)
    case None
    then show ?thesis using assms D propagateCancel_eq[OF D, of n child] by simp
  next
    case (Some ch)
    show ?thesis
    proof (cases "ch \<in> set (closed s1)")
      case True
      then obtain eo where eo: "Err s1 parent = Inr eo" "cancel n s1 child False eo = Inr s'"
        using assms Some propagateCancel_eq[OF D, of n child] by (auto simp: seq_eq_Inr)
      then have "eo \<noteq> None" using cancel_nil_error by (cases eo) auto
      then show ?thesis using D eo by auto
    next
      case False
      show ?thesis
      proof (cases "native_parent s1 parent ch")
        case None
        then show ?thesis using assms D Some False propagateCancel_eq[OF D, of n child] by simp
      next
        case p: (Some p)
        have nh: "p \<notin> set (held s1)"
          using assms D Some False p propagateCancel_eq[OF D, of n child]
          by (auto split: if_splits)
        show ?thesis
        proof (cases "err s1 p")
          case None
          then show ?thesis
            using assms D Some False p nh propagateCancel_eq[OF D, of n child] by auto
        next
          case e: (Some e)
          then obtain s4 where "cancel n (s1\<lparr>held := p # held s1\<rparr>) child False (Some e) = Inr s4"
            "s' = unlock s4 p"
            using assms D Some False p nh propagateCancel_eq[OF D, of n child]
            by (auto simp: seq_eq_Inr)
          then show ?thesis using D nh e by blast
        qed
      qed
    qed
  qed
qed

lemma cancel_any_rel:
  assumes "cancel n s c rfp (Some e) = Inr s'"
  shows "\<exists>s1. fanout_rel e s s1 \<and> remove_rel c s1 s' \<and> err s1 (canceler_addr c) \<noteq> None"
  using cancel_rfp_partial[OF assms] fanout_cancel(1)[of n s c False "Some e"] by auto










lemmas eval_defs = chain_state_def chain_cancelled_def init_state_def chain_A_def chain_B_def
  chain_C_def cancelCtx_cancel_eq timerCtx_cancel_eq mark_def finish_def unlock_def
  children_list_def closedchan_def removeChild_eq parentCancelCtx_eq Background_def
  background_def cancelCtx_Done_eq cancelCtx_Err_def lock_def fun_upd_idem_iff fun_upd_twist
  native_parent_eq clear_timer_def

lemma chain_cancelled_built:
  "cancel 2 chain_state chain_A True (Some Canceled) = Inr chain_cancelled"
  by (simp add: numeral_2_eq_2 eval_defs)




lemma cancel_children_deadline:
  assumes "cancel n s c rfp eo = Inr s'"
  shows "deadline s' = deadline s"
proof (cases eo)
  case None
  then show ?thesis using assms cancel_nil_error by simp
next
  case (Some e)
  then obtain s1 where "fanout_rel e s s1" "remove_rel c s1 s'"
    using cancel_any_rel assms by blast
  then show ?thesis by (simp add: fanout_rel_def misc_rel_def remove_rel_def)
qed

lemma propagateCancel_deadline:
  assumes "propagateCancel n s parent child = Inr s'"
  shows "deadline s' = deadline s"
proof -
  obtain dn s1 where D: "Done s parent = Inr (dn, s1)" and
    c: "(dn = None \<and> s' = s1) \<or>
     (\<exists>e. Err s1 parent = Inr (Some e) \<and> cancel n s1 child False (Some e) = Inr s') \<or>
     (\<exists>p e s4. p \<notin> set (held s1) \<and> err s1 p = Some e \<and>
        cancel n (s1\<lparr>held := p # held s1\<rparr>) child False (Some e) = Inr s4 \<and>
        s' = unlock s4 p) \<or>
     (\<exists>p. err s1 p = None \<and> p \<notin> set (held s1) \<and> s' = register s1 p child) \<or>
     s' = spawn_watcher s1 parent child"
    using propagateCancel_cases[OF assms(1)] by blast
  have f: "deadline s1 = deadline s" using Done_fields[OF D] by simp
  from c consider "s' = s1"
    | e where "cancel n s1 child False (Some e) = Inr s'"
    | p e s4 where "cancel n (s1\<lparr>held := p # held s1\<rparr>) child False (Some e) = Inr s4"
        "s' = unlock s4 p"
    | p where "s' = register s1 p child"
    | "s' = spawn_watcher s1 parent child"
    by blast
  then have "deadline s' = deadline s1"
  proof cases
    case 1 then show ?thesis by simp
  next
    case 2 then show ?thesis using cancel_children_deadline by blast
  next
    case 3
    then show ?thesis using cancel_children_deadline[OF 3(1)] by (simp add: unlock_def)
  next
    case 4 then show ?thesis by (simp add: register_def)
  next
    case 5 then show ?thesis by (simp add: spawn_watcher_def)
  qed
  then show ?thesis using f by simp
qed

lemma timerCtx_cancel_clears_timer:
  assumes "timerCtx_cancel n s a p rfp (Some e) = Inr s'"
  shows "timer s' a = None \<and> (\<forall>t. timer s a = Some t \<longrightarrow> t \<notin> fst ` set (timers s'))"
proof -
  from assms have "\<exists>s1 s2. cancelCtx_cancel n s a p False (Some e) = Inr s1 \<and>
      (if rfp then removeChild s1 p (TimerCtxC a p) else Inr s1) = Inr s2 \<and>
      (if a \<in> set (held s2) then Inl Deadlock else Inr (clear_timer s2 a)) = Inr s'"
    by (simp add: timerCtx_cancel_eq seq_eq_Inr)
  then obtain s1 s2 where s1: "cancelCtx_cancel n s a p False (Some e) = Inr s1"
    and s2: "(if rfp then removeChild s1 p (TimerCtxC a p) else Inr s1) = Inr s2"
    and s3: "(if a \<in> set (held s2) then Inl Deadlock else Inr (clear_timer s2 a)) = Inr s'"
    by blast
  have s': "s' = clear_timer s2 a" using s3 by (simp split: if_splits)
  have "misc_rel s s1" using fanout_cancel(2)[of n s a p False "Some e"] s1
    by (simp add: fanout_rel_def)
  then have m: "timer s1 a = timer s a \<or>
      (timer s1 a = None \<and> (\<forall>t. timer s a = Some t \<longrightarrow> t \<notin> fst ` set (timers s1)))"
    by (simp add: misc_rel_def)
  have "remove_rel (TimerCtxC a p) s1 s2"
    using s2 removeChild_rel remove_rel_refl by (auto split: if_splits)
  then have r: "timer s2 = timer s1" "timers s2 = timers s1" by (simp_all add: remove_rel_def)
  show ?thesis
  proof (cases "timer s2 a")
    case None
    then have "s' = s2" using s' by (simp add: clear_timer_def)
    then show ?thesis using None m r by auto
  next
    case (Some t)
    then have "timer s' a = None" "t \<notin> fst ` set (timers s')"
      using s' by (auto simp: clear_timer_def)
    moreover have "timer s a = Some t" using Some m r by auto
    ultimately show ?thesis by simp
  qed
qed

text \<open>
  Claim C10. A context made by \<open>WithDeadline\<close> on the path that does not degrade to
  \<open>WithCancel\<close> is a timerCtx whose stored deadline is the requested time, and its
  \<^verbatim>\<open>Deadline\<close> is that time with the flag true in every store where the stored
  deadline is still that time. No call of \<open>cancel\<close> (on any canceler, with any arguments,
  from any store), of a cancel function or of a timer callback changes a stored deadline,
  so \<^verbatim>\<open>Deadline\<close> gives the same answer before and after any number of them. The
  cancel function returned leaves the timer field of the node nil and the timer it held,
  if any, stopped.
\<close>

theorem timerCtx_deadline_stable:
  assumes "WithDeadline n now s (Some parent) d = Inr ((c, f), s1)"
    and "\<not> (snd (Deadline s parent) \<and> fst (Deadline s parent) < d)"
  shows "c = TimerCtx (next_addr s) parent \<and> deadline s1 (next_addr s) = d
    \<and> Deadline s1 c = (d, True)
    \<and> (\<forall>t. deadline t (next_addr s) = d \<longrightarrow> Deadline t c = (d, True))
    \<and> (\<forall>k t x rfp e t'. cancel k t x rfp e = Inr t' \<longrightarrow> deadline t' = deadline t)
    \<and> (\<forall>k t g t'. call_CancelFunc k t g = Inr t' \<longrightarrow> deadline t' = deadline t)
    \<and> (\<forall>k t i t'. fire_timer k t i = Inr t' \<longrightarrow> deadline t' = deadline t)
    \<and> (\<forall>k s2. call_CancelFunc k s1 f = Inr s2 \<longrightarrow>
          timer s2 (next_addr s) = None \<and>
          (\<forall>t. timer s1 (next_addr s) = Some t \<longrightarrow> t \<notin> fst ` set (timers s2)))"
proof -
  let ?a = "next_addr s" and ?c = "TimerCtxC (next_addr s) parent"
  obtain s2 where p: "propagateCancel n (alloc_with s d) parent ?c = Inr s2"
    and r: "(if d \<le> now
          then seq (cancel n s2 ?c True (Some DeadlineExceeded))
                 (\<lambda>s3. Inr ((TimerCtx ?a parent, CancelFunc ?c False Canceled), s3))
          else if ?a \<in> set (held s2) then Inl Deadlock
          else Inr ((TimerCtx ?a parent, CancelFunc ?c True Canceled),
                    arm_timer s2 ?a d ?c)) = Inr ((c, f), s1)"
    using assms by (auto simp: WithDeadline_eq seq_eq_Inr)
  have d2: "deadline s2 = (deadline s)(?a := d)"
    using propagateCancel_deadline[OF p] by simp
  have c: "c = TimerCtx ?a parent" and fc: "\<exists>b. f = CancelFunc ?c b Canceled"
    using r by (auto simp: seq_eq_Inr split: if_splits)
  have d1: "deadline s1 = deadline s2"
  proof (cases "d \<le> now")
    case True
    then have "cancel n s2 ?c True (Some DeadlineExceeded) = Inr s1"
      using r by (auto simp: seq_eq_Inr)
    then show ?thesis using cancel_children_deadline by blast
  next
    case False
    then have "s1 = arm_timer s2 ?a d ?c" using r by (auto split: if_splits)
    then show ?thesis by (simp add: arm_timer_def)
  qed
  have k0: "deadline s1 ?a = d" using d1 d2 by simp
  have D: "\<forall>t. deadline t ?a = d \<longrightarrow> Deadline t c = (d, True)"
    using c by simp
  have D1: "Deadline s1 c = (d, True)" using D k0 by blast
  have k1: "\<forall>k t x rfp e t'. cancel k t x rfp e = Inr t' \<longrightarrow> deadline t' = deadline t"
    using cancel_children_deadline by blast
  have k2: "\<forall>k t g t'. call_CancelFunc k t g = Inr t' \<longrightarrow> deadline t' = deadline t"
  proof (intro allI impI)
    fix k t g t' assume "call_CancelFunc k t g = Inr t'"
    then show "deadline t' = deadline t"
      using cancel_children_deadline by (cases g) (auto simp: call_CancelFunc_def)
  qed
  have k3: "\<forall>k t i t'. fire_timer k t i = Inr t' \<longrightarrow> deadline t' = deadline t"
  proof (intro allI impI)
    fix k t i t' assume h: "fire_timer k t i = Inr t'"
    show "deadline t' = deadline t"
    proof (cases "find (\<lambda>r. fst r = i) (timers t)")
      case None
      then show ?thesis using h by (simp add: fire_timer_def)
    next
      case (Some r)
      then have "deadline t' = deadline (Stop t i)"
        using h cancel_children_deadline by (auto simp: fire_timer_def)
      then show ?thesis by (simp add: Stop_def)
    qed
  qed
  have k4: "\<forall>k s2. call_CancelFunc k s1 f = Inr s2 \<longrightarrow>
          timer s2 ?a = None \<and> (\<forall>t. timer s1 ?a = Some t \<longrightarrow> t \<notin> fst ` set (timers s2))"
  proof (intro allI impI)
    fix k s2 assume h: "call_CancelFunc k s1 f = Inr s2"
    obtain b where "f = CancelFunc ?c b Canceled" using fc by blast
    then have "timerCtx_cancel k s1 ?a parent b (Some Canceled) = Inr s2"
      using h by (simp add: call_CancelFunc_def)
    then show "timer s2 ?a = None \<and> (\<forall>t. timer s1 ?a = Some t \<longrightarrow> t \<notin> fst ` set (timers s2))"
      by (rule timerCtx_cancel_clears_timer)
  qed
  from c k0 D1 D k1 k2 k3 k4 show ?thesis by (intro conjI) assumption+
qed

lemmas eval_defs2 = eval_defs timer_T_def timer_state_def chain_state1_def WithDeadline_eq
  WithCancel_eq propagateCancel_def alloc_with_def arm_timer_def register_def
  spawn_watcher_def call_CancelFunc_def

lemma timer_state_built:
  "WithDeadline 0 0 chain_state1 (Some (canceler_ctx chain_A)) 50 =
     Inr ((canceler_ctx timer_T, CancelFunc timer_T True Canceled), timer_state)"
  by (simp add: eval_defs2)

lemma timer_state_cancel:
  "\<exists>s2. cancel 1 timer_state chain_A True (Some Canceled) = Inr s2 \<and>
     err s2 1 = Some Canceled \<and> timer s2 1 = None \<and> timers s2 = []"
  by (simp add: eval_defs2)

theorem timerCtx_deadline_stable_witness:
  "WithDeadline 0 0 chain_state1 (Some (canceler_ctx chain_A)) 50 =
     Inr ((canceler_ctx timer_T, CancelFunc timer_T True Canceled), timer_state) \<and>
   Deadline chain_state1 (canceler_ctx chain_A) = (0, False) \<and>
   Deadline timer_state (canceler_ctx timer_T) = (50, True) \<and>
   (\<exists>s2. cancel 1 timer_state chain_A True (Some Canceled) = Inr s2 \<and>
      err s2 1 = Some Canceled \<and> timer s2 1 = None \<and>
      Deadline s2 (canceler_ctx timer_T) = (50, True))"
proof -
  have d: "Deadline chain_state1 (canceler_ctx chain_A) = (0, False)"
    by (simp add: eval_defs2)
  obtain s2 where s2: "cancel 1 timer_state chain_A True (Some Canceled) = Inr s2"
    "err s2 1 = Some Canceled" "timer s2 1 = None"
    using timer_state_cancel by blast
  have h: "\<not> (snd (Deadline chain_state1 (canceler_ctx chain_A)) \<and>
      fst (Deadline chain_state1 (canceler_ctx chain_A)) < 50)"
    by (simp add: d)
  note T = timerCtx_deadline_stable [OF timer_state_built h]
  have a: "Deadline timer_state (canceler_ctx timer_T) = (50, True)"
    using T by (elim conjE)
  have a0: "deadline timer_state (next_addr chain_state1) = 50"
    using T by (elim conjE)
  have k: "\<forall>t. deadline t (next_addr chain_state1) = 50 \<longrightarrow>
      Deadline t (canceler_ctx timer_T) = (50, True)"
    using T by (elim conjE)
  have "\<forall>k t x rfp e t'. cancel k t x rfp e = Inr t' \<longrightarrow> deadline t' = deadline t"
    using T by (elim conjE)
  then have "deadline s2 = deadline timer_state"
    using s2(1) by (elim allE impE)
  then have b: "Deadline s2 (canceler_ctx timer_T) = (50, True)"
    using k a0 by simp
  show ?thesis using timer_state_built d s2 a b by (intro conjI exI [of _ s2]) assumption+
qed

lemma fresh_cancelled_unregistered:
  assumes "Done s parent = Inr (dn, s1)" "held s = []"
  shows "cancelled_unregistered s (finish (mark (alloc_with s1 d) (next_addr s) e) (next_addr s))
     (next_addr s) e"
proof -
  note f = Done_fields[OF assms(1)]
  show ?thesis
    unfolding cancelled_unregistered_def
    using f assms(2)
    by (auto simp: finish_mark_fields children_list_def split: option.splits)
qed

lemma cancel_settled_unregistered:
  assumes c: "cancel n s2 x rfp (Some e') = Inr s3" and a: "canceler_addr x = a"
    and u: "cancelled_unregistered s s2 a e"
  shows "cancelled_unregistered s s3 a e"
proof -
  have h: "held s2 = []" "err s2 a = Some e" "done_ch s2 a = Some closedchan"
    "children s2 a = None"
    using u by (simp_all add: cancelled_unregistered_def)
  obtain s' where s': "cancel n s2 x rfp (Some e') = Inr s'" "err s' = err s2"
    "done_ch s' a = Some closedchan" "children s' a = None" "held s' = []"
    using cancel_settled[of s2 x e closedchan n rfp e'] h a by auto
  then have eq: "s' = s3" using c by simp
  obtain t where t: "fanout_rel e' s2 t" "remove_rel x t s3"
    using cancel_any_rel[OF c] by blast
  have et: "err t = err s2" using t(2) s'(2) eq by (simp add: remove_rel_def)
  have ct: "children t = children s2"
    using t(1) et by (auto simp: fanout_rel_def err_rel_def)
  have sub: "set (children_list s3 y) \<subseteq> set (children_list s2 y)" for y
  proof -
    have "children s3 y = children t y \<or> children s3 y = map_option (removeAll x) (children t y)"
      using t(2) by (simp add: remove_rel_def)
    then show ?thesis using ct
      by (cases "children s2 y") (auto simp: children_list_def)
  qed
  have m: "watchers s3 = watchers s2" "goroutines s3 = goroutines s2"
    "set (timers s3) \<subseteq> set (timers s2)" "next_timer s3 = next_timer s2"
    using t by (simp_all add: fanout_rel_def misc_rel_def remove_rel_def)
  have "timer t a = timer s2 a \<or> timer t a = None"
    using t(1) by (auto simp: fanout_rel_def misc_rel_def)
  then have ti: "timer s3 a = None"
    using t(2) u by (auto simp: remove_rel_def cancelled_unregistered_def)
  have u': "\<forall>y. set (children_list s2 y) \<subseteq> set (children_list s y)"
    "watchers s2 = watchers s" "goroutines s2 = goroutines s"
    "set (timers s2) \<subseteq> set (timers s)" "next_timer s2 = next_timer s"
    using u by (simp_all add: cancelled_unregistered_def)
  show ?thesis
    unfolding cancelled_unregistered_def
    using s' eq h sub m ti u' by (intro conjI allI) (simp_all, blast+)
qed

text \<open>
  Claim C6. Let the Done channel of the parent be present and closed when \<open>WithCancel\<close> or
  \<open>WithDeadline\<close> is called (no mutex held, the parent made of allocated nodes), and let
  \<open>e\<close> be the parent's Err. Then \<open>propagateCancel\<close> on the new node ends with the node
  cancelled with \<open>e\<close>, and so do \<open>WithCancel\<close> and \<open>WithDeadline\<close> (which returns a cancelCtx
  or a timerCtx): the err of the new node is \<open>e\<close>, its done is the shared closed channel,
  it is in no children set that did not already hold it, no watcher goroutine was
  started and no timer was created.
\<close>

theorem closed_parent_cancels_child:
  assumes al: "allocated s parent" and h: "held s = []"
    and D: "Done s parent = Inr (Some ch, s1)" and cl: "ch \<in> set (closed s1)"
    and E: "Err s1 parent = Inr (Some e)"
  shows "(\<forall>child. canceler_addr child = next_addr s \<longrightarrow>
            propagateCancel n (alloc_with s d) parent child =
              Inr (finish (mark (alloc_with s1 d) (next_addr s) e) (next_addr s)))
    \<and> (\<exists>s'. WithCancel n s (Some parent) =
            Inr ((CancelCtx (next_addr s) parent,
                  CancelFunc (CancelCtxC (next_addr s) parent) True Canceled), s') \<and>
          cancelled_unregistered s s' (next_addr s) e \<and>
          Err s' (CancelCtx (next_addr s) parent) = Inr (Some e))
    \<and> (\<exists>c f s'. WithDeadline n now s (Some parent) d = Inr ((c, f), s') \<and>
          (c = CancelCtx (next_addr s) parent \<or> c = TimerCtx (next_addr s) parent) \<and>
          cancelled_unregistered s s' (next_addr s) e \<and> Err s' c = Inr (Some e))"
proof -
  let ?a = "next_addr s"
  have nh: "?a \<notin> set (held s)" using h by simp
  have P: "propagateCancel n (alloc_with s d') parent child =
      Inr (finish (mark (alloc_with s1 d') ?a e) ?a)"
    if "canceler_addr child = ?a" for child d'
    using propagate_fresh[OF al that D nh, of n d'] cl E by simp
  have U: "cancelled_unregistered s (finish (mark (alloc_with s1 d') ?a e) ?a) ?a e" for d'
    using fresh_cancelled_unregistered[OF D h] .
  have Er: "Err t (canceler_ctx x) = Inr (Some e)"
    if "cancelled_unregistered s t ?a e" "canceler_addr x = ?a" for t x
    using that Err_canceler_ctx[of t x] by (simp add: cancelled_unregistered_def)
  have W: "\<exists>s'. WithCancel n s (Some parent) =
            Inr ((CancelCtx ?a parent, CancelFunc (CancelCtxC ?a parent) True Canceled), s') \<and>
          cancelled_unregistered s s' ?a e \<and> Err s' (CancelCtx ?a parent) = Inr (Some e)"
    using P[of "CancelCtxC ?a parent" 0] U[of 0] Er[OF U[of 0], of "CancelCtxC ?a parent"]
    by (simp add: WithCancel_eq)
  have T: "\<exists>c f s'. WithDeadline n now s (Some parent) d = Inr ((c, f), s') \<and>
          (c = CancelCtx ?a parent \<or> c = TimerCtx ?a parent) \<and>
          cancelled_unregistered s s' ?a e \<and> Err s' c = Inr (Some e)"
  proof (cases "snd (Deadline s parent) \<and> fst (Deadline s parent) < d")
    case True
    then have "WithDeadline n now s (Some parent) d = WithCancel n s (Some parent)"
      by (simp add: WithDeadline_eq)
    then show ?thesis using W by auto
  next
    case nd: False
    let ?c = "TimerCtxC ?a parent" and ?s2 = "finish (mark (alloc_with s1 d) ?a e) ?a"
    have p: "propagateCancel n (alloc_with s d) parent ?c = Inr ?s2" using P[of ?c d] by simp
    have u2: "cancelled_unregistered s ?s2 ?a e" using U[of d] .
    show ?thesis
    proof (cases "d \<le> now")
      case True
      have hs: "held ?s2 = []" "err ?s2 ?a = Some e" "done_ch ?s2 ?a = Some closedchan"
        "children ?s2 ?a = None"
        using u2 by (simp_all add: cancelled_unregistered_def)
      obtain s3 where s3: "cancel n ?s2 ?c True (Some DeadlineExceeded) = Inr s3"
        using cancel_settled[of ?s2 ?c e closedchan n True DeadlineExceeded] hs by auto
      have u3: "cancelled_unregistered s s3 ?a e"
        using cancel_settled_unregistered[OF s3 _ u2] by simp
      have "WithDeadline n now s (Some parent) d =
          Inr ((TimerCtx ?a parent, CancelFunc ?c False Canceled), s3)"
        using True p s3 by (simp add: WithDeadline_eq nd)
      then show ?thesis using u3 Er[OF u3, of ?c] by auto
    next
      case F: False
      have "arm_timer ?s2 ?a d ?c = ?s2" "?a \<notin> set (held ?s2)"
        using u2 by (simp_all add: arm_timer_def cancelled_unregistered_def)
      then have "WithDeadline n now s (Some parent) d =
          Inr ((TimerCtx ?a parent, CancelFunc ?c True Canceled), ?s2)"
        using F p by (simp add: WithDeadline_eq nd)
      then show ?thesis using u2 Er[OF u2, of ?c] by auto
    qed
  qed
  from P W T show ?thesis by blast
qed

theorem closed_parent_cancels_child_witness:
  "allocated chain_cancelled (canceler_ctx chain_A) \<and> held chain_cancelled = [] \<and>
   Done chain_cancelled (canceler_ctx chain_A) = Inr (Some 1, chain_cancelled) \<and>
   1 \<in> set (closed chain_cancelled) \<and>
   Err chain_cancelled (canceler_ctx chain_A) = Inr (Some Canceled) \<and>
   (\<exists>s'. WithCancel 0 chain_cancelled (Some (canceler_ctx chain_A)) =
      Inr ((CancelCtx 3 (canceler_ctx chain_A),
            CancelFunc (CancelCtxC 3 (canceler_ctx chain_A)) True Canceled), s') \<and>
      err s' 3 = Some Canceled \<and> children_list s' 0 = [] \<and> watchers s' = [] \<and>
      Err s' (CancelCtx 3 (canceler_ctx chain_A)) = Inr (Some Canceled)) \<and>
   (\<exists>c f s'. WithDeadline 0 0 chain_cancelled (Some (canceler_ctx chain_A)) 50 =
      Inr ((c, f), s') \<and> err s' 3 = Some Canceled \<and> timers s' = [] \<and>
      Err s' c = Inr (Some Canceled))"
proof -
  have a: "allocated chain_cancelled (canceler_ctx chain_A)"
    and h: "held chain_cancelled = []"
    and D: "Done chain_cancelled (canceler_ctx chain_A) = Inr (Some 1, chain_cancelled)"
    and c: "1 \<in> set (closed chain_cancelled)"
    and E: "Err chain_cancelled (canceler_ctx chain_A) = Inr (Some Canceled)"
    by (simp_all add: eval_defs)
  have n3: "next_addr chain_cancelled = 3" by (simp add: eval_defs)
  have z: "children_list chain_cancelled 0 = []" "watchers chain_cancelled = []"
    "timers chain_cancelled = []"
    by (simp_all add: eval_defs)
  note T = closed_parent_cancels_child [OF a h D c E, of 0 50 0, unfolded n3]
  have "\<exists>s'. WithCancel 0 chain_cancelled (Some (canceler_ctx chain_A)) =
            Inr ((CancelCtx 3 (canceler_ctx chain_A),
                  CancelFunc (CancelCtxC 3 (canceler_ctx chain_A)) True Canceled), s') \<and>
          cancelled_unregistered chain_cancelled s' 3 Canceled \<and>
          Err s' (CancelCtx 3 (canceler_ctx chain_A)) = Inr (Some Canceled)"
    using T by (elim conjE)
  then obtain s' where s': "WithCancel 0 chain_cancelled (Some (canceler_ctx chain_A)) =
            Inr ((CancelCtx 3 (canceler_ctx chain_A),
                  CancelFunc (CancelCtxC 3 (canceler_ctx chain_A)) True Canceled), s')"
    "cancelled_unregistered chain_cancelled s' 3 Canceled"
    "Err s' (CancelCtx 3 (canceler_ctx chain_A)) = Inr (Some Canceled)"
    by (elim exE conjE)
  have "set (children_list s' 0) \<subseteq> set (children_list chain_cancelled 0)"
    using s'(2) by (simp add: cancelled_unregistered_def)
  then have w0: "children_list s' 0 = []" using z by simp
  have w: "err s' 3 = Some Canceled" "children_list s' 0 = []" "watchers s' = []"
    using s'(2) z w0 by (simp_all add: cancelled_unregistered_def)
  have "\<exists>c f s'. WithDeadline 0 0 chain_cancelled (Some (canceler_ctx chain_A)) 50 =
          Inr ((c, f), s') \<and>
          (c = CancelCtx 3 (canceler_ctx chain_A) \<or> c = TimerCtx 3 (canceler_ctx chain_A)) \<and>
          cancelled_unregistered chain_cancelled s' 3 Canceled \<and> Err s' c = Inr (Some Canceled)"
    using T by (elim conjE)
  then obtain c' f t where t: "WithDeadline 0 0 chain_cancelled (Some (canceler_ctx chain_A)) 50 =
          Inr ((c', f), t)" "cancelled_unregistered chain_cancelled t 3 Canceled"
     "Err t c' = Inr (Some Canceled)"
    by (elim exE conjE)
  have v: "err t 3 = Some Canceled" "timers t = []"
    using t(2) z by (simp_all add: cancelled_unregistered_def)
  have W: "\<exists>s'. WithCancel 0 chain_cancelled (Some (canceler_ctx chain_A)) =
      Inr ((CancelCtx 3 (canceler_ctx chain_A),
            CancelFunc (CancelCtxC 3 (canceler_ctx chain_A)) True Canceled), s') \<and>
      err s' 3 = Some Canceled \<and> children_list s' 0 = [] \<and> watchers s' = [] \<and>
      Err s' (CancelCtx 3 (canceler_ctx chain_A)) = Inr (Some Canceled)"
    using s' w by (intro exI [of _ s'] conjI) assumption+
  have V: "\<exists>c f s'. WithDeadline 0 0 chain_cancelled (Some (canceler_ctx chain_A)) 50 =
      Inr ((c, f), s') \<and> err s' 3 = Some Canceled \<and> timers s' = [] \<and>
      Err s' c = Inr (Some Canceled)"
    using t v by (intro exI [of _ c'] exI [of _ f] exI [of _ t] conjI) assumption+
  from a h D c E W V show ?thesis by (intro conjI) assumption+
qed





lemmas eval_defs3 = eval_defs2 timer_X_def timer_state1_def timer_state2_def
  fire_timer_def Stop_def




lemma cancel_noop:
  assumes "a \<notin> set (held s)" "err s a = Some e0" "timer s a = None"
  shows "cancel n s (TimerCtxC a p) False (Some e) = Inr (s\<lparr>calls := calls s @ [(a, held s)]\<rparr>)"
  using assms by (simp add: timerCtx_cancel_eq cancelCtx_cancel_eq clear_timer_def)

lemma cancel_fresh_rfp:
  assumes "children s a = None" "err s a = None" "done_ch s a = None" "timer s a = None"
    "held s = []"
  shows "\<exists>s'. cancel n s (TimerCtxC a p) True (Some e) = Inr s' \<and>
    remove_rel (TimerCtxC a p) (finish (mark s a e) a) s'"
proof -
  let ?t = "finish (mark s a e) a"
  have l: "cancelCtx_cancel n s a p False (Some e) = Inr ?t"
    using assms by (simp add: cancelCtx_cancel_eq children_list_def)
  have ht: "held ?t = []" "timer ?t a = None"
    using assms by (simp_all add: finish_mark_fields)
  obtain s' where s': "removeChild ?t p (TimerCtxC a p) = Inr s'"
    using removeChild_total[OF ht(1)] by blast
  have r: "remove_rel (TimerCtxC a p) ?t s'" using removeChild_rel[OF s'] .
  then have "held s' = []" "timer s' a = None" using ht by (simp_all add: remove_rel_def)
  then have "a \<notin> set (held s')" "clear_timer s' a = s'" by (simp_all add: clear_timer_def)
  then have "cancel n s (TimerCtxC a p) True (Some e) = Inr s'"
    using l s' by (simp add: timerCtx_cancel_eq)
  then show ?thesis using r by blast
qed

lemma propagate_live:
  assumes al: "allocated s parent" and ca: "canceler_addr child = next_addr s"
    and D: "Done s parent = Inr (dn, s1)" and h: "held s = []"
    and lp: "live_parent s1 parent dn"
  shows "\<exists>s2. propagateCancel n (alloc_with s d) parent child = Inr s2 \<and>
     children s2 (next_addr s) = None \<and> err s2 (next_addr s) = None \<and>
     done_ch s2 (next_addr s) = None \<and> timer s2 (next_addr s) = None \<and> held s2 = [] \<and>
     timers s2 = timers s \<and> next_timer s2 = next_timer s"
proof -
  let ?a = "next_addr s" and ?t = "alloc_with s1 d"
  note f = Done_fields[OF D]
  have nh: "?a \<notin> set (held s)" using h by simp
  note P = propagate_fresh[OF al ca D nh, of n d]
  have al1: "allocated s1 parent" using allocated_mono[OF al] f by simp
  have dc: "done_ch s1 ?a = done_ch s ?a" using Done_allocated_node[OF al D, of ?a] by simp
  show ?thesis
  proof (cases dn)
    case None
    then show ?thesis using P f h by simp
  next
    case (Some ch)
    then have nc: "ch \<notin> set (closed s1)" using lp by (simp add: live_parent_def)
    show ?thesis
    proof (cases "native_parent s1 parent ch")
      case None
      then have "propagateCancel n (alloc_with s d) parent child =
          Inr (spawn_watcher ?t parent child)"
        using P Some nc by simp
      then show ?thesis using f h by (simp add: spawn_watcher_def)
    next
      case Some2: (Some p)
      have pa: "p < ?a" using native_parent_allocated[OF al1 Some2] f by simp
      have ph: "p \<notin> set (held s1)" using f h by simp
      have pe: "err s1 p = None" using lp Some Some2 by (simp add: live_parent_def)
      have "propagateCancel n (alloc_with s d) parent child = Inr (register ?t p child)"
        using P Some nc Some2 ph pe by simp
      then show ?thesis using f h pa by (auto simp: register_def)
    qed
  qed
qed

text \<open>
  Claim C5, as the code has it. Let the deadline \<open>d\<close> be past (\<open>d \<le> now\<close>), the parent not
  cancelled and without a deadline earlier than \<open>d\<close> (no mutex held, the parent made of
  allocated nodes). Then \<open>WithDeadline\<close> returns a timerCtx and a cancel function; the
  context is cancelled already: its err is \<open>DeadlineExceeded\<close> and its done the shared closed
  channel; no timer was created and the timer field is nil. Calling the cancel function
  afterwards changes nothing in the store (it only adds its own entry to the log of
  calls). For a cancelled parent the new context has the error of the parent instead, as
  the example after the theorem shows.
\<close>

theorem past_deadline_expires:
  assumes al: "allocated s parent" and h: "held s = []"
    and D: "Done s parent = Inr (dn, s1)" and lp: "live_parent s1 parent dn"
    and nd: "\<not> (snd (Deadline s parent) \<and> fst (Deadline s parent) < d)"
    and past: "d \<le> now"
  shows "\<exists>s'. WithDeadline n now s (Some parent) d =
        Inr ((TimerCtx (next_addr s) parent,
              CancelFunc (TimerCtxC (next_addr s) parent) False Canceled), s') \<and>
      err s' (next_addr s) = Some DeadlineExceeded \<and>
      Err s' (TimerCtx (next_addr s) parent) = Inr (Some DeadlineExceeded) \<and>
      done_ch s' (next_addr s) = Some closedchan \<and>
      timers s' = timers s \<and> next_timer s' = next_timer s \<and> timer s' (next_addr s) = None \<and>
      (\<forall>k. call_CancelFunc k s' (CancelFunc (TimerCtxC (next_addr s) parent) False Canceled) =
           Inr (s'\<lparr>calls := calls s' @ [(next_addr s, [])]\<rparr>))"
proof -
  let ?a = "next_addr s" and ?x = "TimerCtxC (next_addr s) parent"
  obtain s2 where s2: "propagateCancel n (alloc_with s d) parent ?x = Inr s2"
    "children s2 ?a = None" "err s2 ?a = None" "done_ch s2 ?a = None" "timer s2 ?a = None"
    "held s2 = []" "timers s2 = timers s" "next_timer s2 = next_timer s"
    using propagate_live[OF al _ D h lp, of ?x n d] by auto
  let ?t = "finish (mark s2 ?a DeadlineExceeded) ?a"
  obtain s3 where s3: "cancel n s2 ?x True (Some DeadlineExceeded) = Inr s3"
    "remove_rel ?x ?t s3"
    using cancel_fresh_rfp[OF s2(2-6)] by blast
  have w: "WithDeadline n now s (Some parent) d =
      Inr ((TimerCtx ?a parent, CancelFunc ?x False Canceled), s3)"
    using s2(1) s3(1) past by (simp add: WithDeadline_eq nd)
  have e: "err s3 ?a = Some DeadlineExceeded" and hd: "held s3 = []"
    and ti: "timers s3 = timers s" "next_timer s3 = next_timer s" "timer s3 ?a = None"
    using s3(2) s2 by (simp_all add: remove_rel_def finish_mark_fields)
  have "done_ch ?t ?a = Some closedchan" using s2(4) by (simp add: finish_mark_fields)
  moreover have "done_ch s3 ?a = done_ch ?t ?a \<or> done_ch ?t ?a = None"
    using s3(2) by (auto simp: remove_rel_def)
  ultimately have dn: "done_ch s3 ?a = Some closedchan" by auto
  have E: "Err s3 (TimerCtx ?a parent) = Inr (Some DeadlineExceeded)"
    using Err_canceler_ctx[OF hd, of ?x] e by simp
  have N: "\<forall>k. call_CancelFunc k s3 (CancelFunc ?x False Canceled) =
      Inr (s3\<lparr>calls := calls s3 @ [(?a, [])]\<rparr>)"
    using cancel_noop[of ?a s3 DeadlineExceeded _ parent Canceled] e hd ti(3)
    by (simp add: call_CancelFunc_def)
  from w e E dn ti N show ?thesis by (intro exI [of _ s3] conjI) assumption+
qed

theorem immediate_expiry_counterexample:
  "(5 :: int) \<le> 10 \<and>
   (\<exists>f s'. WithDeadline 0 10 chain_cancelled (Some (canceler_ctx chain_A)) 5 =
      Inr ((TimerCtx 3 (canceler_ctx chain_A), f), s') \<and>
      Err s' (TimerCtx 3 (canceler_ctx chain_A)) = Inr (Some Canceled) \<and>
      Err s' (TimerCtx 3 (canceler_ctx chain_A)) \<noteq> Inr (Some DeadlineExceeded))"
  by (simp add: eval_defs3)

theorem past_deadline_expires_witness:
  "allocated chain_state1 (canceler_ctx chain_A) \<and> held chain_state1 = [] \<and>
   Done chain_state1 (canceler_ctx chain_A) =
     Inr (Some 1, chain_state1\<lparr>next_chan := 2, done_ch := (\<lambda>_. None)(0 := Some 1)\<rparr>) \<and>
   live_parent (chain_state1\<lparr>next_chan := 2, done_ch := (\<lambda>_. None)(0 := Some 1)\<rparr>)
     (canceler_ctx chain_A) (Some 1) \<and>
   Deadline chain_state1 (canceler_ctx chain_A) = (0, False) \<and> (5 :: int) \<le> 10 \<and>
   (\<exists>s'. WithDeadline 0 10 chain_state1 (Some (canceler_ctx chain_A)) 5 =
        Inr ((canceler_ctx timer_T, CancelFunc timer_T False Canceled), s') \<and>
      Err s' (canceler_ctx timer_T) = Inr (Some DeadlineExceeded) \<and>
      timers s' = [] \<and> timer s' 1 = None \<and>
      call_CancelFunc 0 s' (CancelFunc timer_T False Canceled) =
        Inr (s'\<lparr>calls := calls s' @ [(1, [])]\<rparr>))"
proof -
  let ?s1 = "chain_state1\<lparr>next_chan := 2, done_ch := (\<lambda>_. None)(0 := Some 1)\<rparr>"
  have al: "allocated chain_state1 (canceler_ctx chain_A)"
    and h: "held chain_state1 = []"
    and D: "Done chain_state1 (canceler_ctx chain_A) = Inr (Some 1, ?s1)"
    and lp: "live_parent ?s1 (canceler_ctx chain_A) (Some 1)"
    and dl: "Deadline chain_state1 (canceler_ctx chain_A) = (0, False)"
    and past: "(5 :: int) \<le> 10"
    by (simp_all add: eval_defs3 live_parent_def)
  have nd: "\<not> (snd (Deadline chain_state1 (canceler_ctx chain_A)) \<and>
      fst (Deadline chain_state1 (canceler_ctx chain_A)) < 5)"
    by (simp add: dl)
  have n1: "next_addr chain_state1 = 1" "timers chain_state1 = []"
    by (simp_all add: eval_defs3)
  have x: "TimerCtx 1 (canceler_ctx chain_A) = canceler_ctx timer_T"
    "TimerCtxC 1 (canceler_ctx chain_A) = timer_T"
    by (simp_all add: timer_T_def)
  note T = past_deadline_expires [OF al h D lp nd past, of 0, unfolded n1 x]
  then obtain s' where s': "WithDeadline 0 10 chain_state1 (Some (canceler_ctx chain_A)) 5 =
        Inr ((canceler_ctx timer_T, CancelFunc timer_T False Canceled), s')"
      "Err s' (canceler_ctx timer_T) = Inr (Some DeadlineExceeded)"
      "timers s' = []" "timer s' 1 = None"
      "\<forall>k. call_CancelFunc k s' (CancelFunc timer_T False Canceled) =
           Inr (s'\<lparr>calls := calls s' @ [(1, [])]\<rparr>)"
    by (elim exE conjE)
  have c: "call_CancelFunc 0 s' (CancelFunc timer_T False Canceled) =
        Inr (s'\<lparr>calls := calls s' @ [(1, [])]\<rparr>)"
    using s'(5) by (elim allE)
  have R: "\<exists>s'. WithDeadline 0 10 chain_state1 (Some (canceler_ctx chain_A)) 5 =
        Inr ((canceler_ctx timer_T, CancelFunc timer_T False Canceled), s') \<and>
      Err s' (canceler_ctx timer_T) = Inr (Some DeadlineExceeded) \<and>
      timers s' = [] \<and> timer s' 1 = None \<and>
      call_CancelFunc 0 s' (CancelFunc timer_T False Canceled) =
        Inr (s'\<lparr>calls := calls s' @ [(1, [])]\<rparr>)"
    using s'(1-4) c by (intro exI [of _ s'] conjI) assumption+
  from al h D lp dl past R show ?thesis by (intro conjI) assumption+
qed

end
